theory Spec2Isabelle
  imports Complex_Main
begin

section \<open>Color patches with cult leaders: the model of \<open>color_patches/model.py\<close>\<close>

text \<open>
  The source is a Python program on top of the agent-based-modelling library \<open>mesa\<close>:
  a class \<open>ColorCell\<close> (one agent per grid cell) and a class \<open>ColorPatches\<close> (the
  model, which owns the grid, the agents, the step counter and a random generator).
  This theory embeds both classes. Mutation is explicit state passing on a record,
  every raise is a value \<open>Inl e\<close>, and every random draw is read from an explicit
  generator state.
\<close>

subsection \<open>Python values, errors, random generators\<close>

datatype error = IndexError | ValueError

text \<open>
  \<open>_state\<close>, \<open>_next_state\<close> and \<open>cult_leader_opinion\<close> hold either an integer or
  Python's \<open>None\<close>: they are \<open>int option\<close>. A value is truthy when it is neither
  \<open>None\<close> nor \<open>0\<close>.
\<close>

definition truthy :: "int option \<Rightarrow> bool" where
  "truthy v = (case v of None \<Rightarrow> False | Some n \<Rightarrow> n \<noteq> 0)"

text \<open>
  The source draws from two generators: the module-level one (\<open>random.random()\<close>,
  lines 74 and 76) and the model's own (\<open>self.random\<close>, lines 77, 79, 109, 134).
  A generator is the sequence of its future raw outputs and a read position.
  \<open>random.random()\<close> returns a binary64 float \<open>k / 2 ^ 53\<close> with \<open>0 \<le> k < 2 ^ 53\<close>;
  the raw output is reduced to such a \<open>k\<close>, and the float is represented by the
  rational number it denotes. The model's generator yields raw naturals, reduced
  below the bound that \<open>choice\<close> or \<open>randrange\<close> asks for.
\<close>

record rng =
  global_draws :: "nat \<Rightarrow> nat"
  global_pos :: nat
  model_draws :: "nat \<Rightarrow> nat"
  model_pos :: nat

definition random_random :: "rng \<Rightarrow> real \<times> rng" where
  "random_random r =
     (real (global_draws r (global_pos r) mod 2 ^ 53) / 2 ^ 53,
      r\<lparr>global_pos := Suc (global_pos r)\<rparr>)"

definition randbelow :: "nat \<Rightarrow> rng \<Rightarrow> nat \<times> rng" where
  "randbelow n r = (model_draws r (model_pos r) mod n, r\<lparr>model_pos := Suc (model_pos r)\<rparr>)"

definition choice :: "'a list \<Rightarrow> rng \<Rightarrow> error + ('a \<times> rng)" where
  "choice xs r =
     (if xs = [] then Inl IndexError
      else (case randbelow (length xs) r of (k, r') \<Rightarrow> Inr (xs ! k, r')))"

definition randrange :: "nat \<Rightarrow> nat \<Rightarrow> rng \<Rightarrow> error + (nat \<times> rng)" where
  "randrange start stop r =
     (if stop \<le> start then Inl ValueError
      else (case randbelow (stop - start) r of (k, r') \<Rightarrow> Inr (start + k, r')))"

subsection \<open>Cells and the model\<close>

definition OPINIONS :: "int list" where
  "OPINIONS = [0, 1, 2, 3, 4, 5, 6, 7, 8, 9, 10, 11, 12, 13, 14, 15, 16]"

record cell =
  row :: nat
  col :: nat
  state :: "int option"
  next_state :: "int option"
  is_cult_leader :: bool

text \<open>\<open>ColorCell.__init__\<close> (lines 17 to 26).\<close>

definition ColorCell :: "nat \<times> nat \<Rightarrow> int option \<Rightarrow> cell" where
  "ColorCell pos initial_state =
     \<lparr>row = fst pos, col = snd pos, state = initial_state, next_state = None,
      is_cult_leader = False\<rparr>"

text \<open>
  The agents of the model are a list in creation order, which is the order in which
  \<open>agents.do\<close> visits them; an agent is identified by its index in that list. The
  grid refers to the same objects: the agent placed at \<open>(x, y)\<close> is the one created
  for that coordinate, and the coordinates are created in the order of \<open>coord_iter\<close>.
\<close>

record model =
  width :: nat
  height :: nat
  agents :: "cell list"
  steps :: nat
  rnd :: rng

subsection \<open>The grid\<close>

text \<open>
  Modelled from the spec: the grid (\<open>mesa.space.SingleGrid\<close> with \<open>torus=False\<close>) is
  the external collaborator of the spec and is not under \<open>src/\<close>. It is a bounded,
  non-wrapping array with one agent per coordinate; \<open>coord_iter\<close> enumerates the
  coordinates with \<open>x\<close> outermost; \<open>get_neighborhood\<close> enumerates the coordinates
  within \<open>radius\<close> of \<open>pos\<close>, clipped to the bounds, in the Chebyshev sense when
  \<open>moore\<close> holds and in the Manhattan sense otherwise, without \<open>pos\<close> itself unless
  \<open>include_center\<close> holds; \<open>iter_neighbors\<close> yields the agents found there. The
  parameters are in the library's order \<open>(pos, moore, include_center, radius)\<close>, the
  last two defaulting to \<open>False\<close> and \<open>1\<close>.
\<close>

definition coord_iter :: "model \<Rightarrow> (nat \<times> nat) list" where
  "coord_iter m = List.product [0..<width m] [0..<height m]"

definition grid_at :: "model \<Rightarrow> nat \<times> nat \<Rightarrow> nat option" where
  "grid_at m pos =
     (let i = fst pos * height m + snd pos
      in if i < length (agents m) then Some i else None)"

definition get_neighborhood ::
  "model \<Rightarrow> nat \<times> nat \<Rightarrow> bool \<Rightarrow> bool \<Rightarrow> nat \<Rightarrow> (nat \<times> nat) list" where
  "get_neighborhood m pos moore include_center radius =
     (let x = fst pos; y = snd pos;
          x_range = [x - radius ..< min (width m) (x + radius + 1)];
          y_range = [y - radius ..< min (height m) (y + radius + 1)];
          neighborhood =
            filter (\<lambda>(nx, ny). moore \<or> \<not> \<bar>int nx - int x\<bar> + \<bar>int ny - int y\<bar> > int radius)
              (List.product x_range y_range)
      in if include_center then neighborhood else removeAll pos neighborhood)"

definition iter_neighbors ::
  "model \<Rightarrow> nat \<times> nat \<Rightarrow> bool \<Rightarrow> bool \<Rightarrow> nat \<Rightarrow> cell list" where
  "iter_neighbors m pos moore include_center radius =
     map (\<lambda>i. agents m ! i)
       (List.map_filter (grid_at m) (get_neighborhood m pos moore include_center radius))"

definition get_cell_list_contents :: "model \<Rightarrow> (nat \<times> nat) list \<Rightarrow> nat list" where
  "get_cell_list_contents m cell_list = List.map_filter (grid_at m) cell_list"

subsection \<open>\<open>collections.Counter\<close>\<close>

text \<open>
  A \<open>Counter\<close> is a dictionary in insertion order: an association list whose keys are
  in the order of their first occurrence. \<open>most_common()\<close> sorts the items by count,
  largest first, and the sort is stable.
\<close>

fun counter_add :: "'a \<Rightarrow> ('a \<times> nat) list \<Rightarrow> ('a \<times> nat) list" where
  "counter_add k [] = [(k, 1)]"
| "counter_add k ((k', c) # kcs) =
     (if k = k' then (k', Suc c) # kcs else (k', c) # counter_add k kcs)"

definition Counter :: "'a list \<Rightarrow> ('a \<times> nat) list" where
  "Counter xs = foldl (\<lambda>kcs k. counter_add k kcs) [] xs"

definition most_common :: "('a \<times> nat) list \<Rightarrow> ('a \<times> nat) list" where
  "most_common kcs = sort_key (\<lambda>kc. - int (snd kc)) kcs"

subsection \<open>\<open>ColorCell.determine_opinion\<close> (lines 43 to 79)\<close>

definition neighbor_iter :: "model \<Rightarrow> cell \<Rightarrow> cell list" where
  "neighbor_iter m self = iter_neighbors m (row self, col self) True False 1"

definition cultist_influence :: nat where
  "cultist_influence = 4"

definition check_cultist_iter :: "model \<Rightarrow> cell \<Rightarrow> cell list" where
  "check_cultist_iter m self =
     iter_neighbors m (row self, col self) False False cultist_influence"

definition neighbors_opinion :: "model \<Rightarrow> cell \<Rightarrow> (int option \<times> nat) list" where
  "neighbors_opinion m self = Counter (map state (neighbor_iter m self))"

definition polled_opinions :: "model \<Rightarrow> cell \<Rightarrow> (int option \<times> nat) list" where
  "polled_opinions m self = most_common (neighbors_opinion m self)"

text \<open>
  The loop of lines 58 to 62. Its body reads \<open>polled_opinions[0]\<close> and
  \<open>polled_opinions[-1]\<close> only when the list has an element; on the empty list both
  results are empty.
\<close>

definition tied_opinions :: "model \<Rightarrow> cell \<Rightarrow> (int option \<times> nat) list" where
  "tied_opinions m self =
     filter (\<lambda>neighbor. snd neighbor = snd (hd (polled_opinions m self)))
       (polled_opinions m self)"

definition low_tied_opinions :: "model \<Rightarrow> cell \<Rightarrow> (int option \<times> nat) list" where
  "low_tied_opinions m self =
     filter (\<lambda>neighbor. snd neighbor = snd (last (polled_opinions m self)))
       (polled_opinions m self)"

text \<open>
  The loop of lines 64 to 72, one iteration: the accumulator is the pair
  \<open>(cult_leader_opinion, dist)\<close>, the second written \<open>dist_\<close> here. The
  assignment of line 72 is under the test of line 67 but not under the test of
  line 70.
\<close>

definition scan_cultist :: "cell \<Rightarrow> int option \<times> int \<Rightarrow> cell \<Rightarrow> int option \<times> int" where
  "scan_cultist self acc neighbor =
     (case acc of (cult_leader_opinion, dist_) \<Rightarrow>
        if is_cult_leader neighbor then
          (let new_dist = \<bar>int (row self) - int (row neighbor)\<bar>
                          + \<bar>int (col self) - int (col neighbor)\<bar>
           in (state neighbor, if new_dist < dist_ then new_dist else dist_))
        else (cult_leader_opinion, dist_))"

definition cultist_scan :: "model \<Rightarrow> cell \<Rightarrow> int option \<times> int" where
  "cultist_scan m self = foldl (scan_cultist self) (None, 10000) (check_cultist_iter m self)"

text \<open>
  The right-hand sides of the comparisons of lines 74 and 76 are binary64 floats.
  \<open>leader_threshold dist\<close> is the float that \<open>0.9 - dist * 0.2\<close> evaluates to, as the
  rational number it denotes: \<open>0x1.ccccccccccccdp-1\<close> for \<open>dist = 0\<close>,
  \<open>0x1.6666666666666p-1\<close> for \<open>1\<close>, \<open>0.5\<close> for \<open>2\<close>, \<open>0x1.3333333333332p-2\<close> for
  \<open>3\<close> and \<open>0x1.9999999999998p-4\<close> for \<open>4\<close>. For any other \<open>dist\<close> the float is
  negative (\<open>dist \<ge> 5\<close>) or above \<open>1\<close> (\<open>dist < 0\<close>), and so is the exact value that
  stands for it here: the comparison with a draw, which lies in \<open>[0, 1)\<close>, is the
  same. \<open>low_tie_threshold\<close> is the float \<open>0.1\<close>, that is \<open>0x1.999999999999ap-4\<close>.
\<close>

definition leader_threshold :: "int \<Rightarrow> real" where
  "leader_threshold d =
     (if d = 0 then 8106479329266893 / 2 ^ 53
      else if d = 1 then 3152519739159347 / 2 ^ 52
      else if d = 2 then 1 / 2
      else if d = 3 then 2702159776422297 / 2 ^ 53
      else if d = 4 then 900719925474099 / 2 ^ 53
      else 0.9 - real_of_int d * 0.2)"

definition low_tie_threshold :: real where
  "low_tie_threshold = 3602879701896397 / 2 ^ 55"

text \<open>
  The decision of lines 74 to 79: the value that is assigned to \<open>self._next_state\<close>,
  with the generator state it leaves. The \<open>and\<close> of line 74 draws only when
  \<open>cult_leader_opinion\<close> is truthy; the \<open>elif\<close> of line 76 draws again when the
  test of line 74 is false; \<open>choice\<close> raises on an empty list.
\<close>

definition next_opinion :: "model \<Rightarrow> cell \<Rightarrow> error + (int option \<times> rng)" where
  "next_opinion m self =
     (case cultist_scan m self of (cult_leader_opinion, dist_) \<Rightarrow>
      case (if truthy cult_leader_opinion
            then (case random_random (rnd m) of
                    (u, r) \<Rightarrow> (u < leader_threshold dist_, r))
            else (False, rnd m)) of (follow, r1) \<Rightarrow>
      if follow then Inr (cult_leader_opinion, r1)
      else (case random_random r1 of (u2, r2) \<Rightarrow>
        if u2 < low_tie_threshold then
          (case choice (low_tied_opinions m self) r2 of
             Inl e \<Rightarrow> Inl e
           | Inr (n, r3) \<Rightarrow> Inr (fst n, r3))
        else
          (case choice (tied_opinions m self) r2 of
             Inl e \<Rightarrow> Inl e
           | Inr (n, r3) \<Rightarrow> Inr (fst n, r3))))"

definition set_next_state :: "nat \<Rightarrow> int option \<Rightarrow> rng \<Rightarrow> model \<Rightarrow> model" where
  "set_next_state i v r m =
     m\<lparr>agents := (agents m)[i := (agents m ! i)\<lparr>next_state := v\<rparr>], rnd := r\<rparr>"

definition determine_opinion :: "nat \<Rightarrow> model \<Rightarrow> error + model" where
  "determine_opinion i m =
     (case next_opinion m (agents m ! i) of
        Inl e \<Rightarrow> Inl e
      | Inr (v, r) \<Rightarrow> Inr (set_next_state i v r m))"

subsection \<open>\<open>ColorCell.assume_opinion\<close> (lines 81 to 86)\<close>

definition assume_opinion :: "nat \<Rightarrow> model \<Rightarrow> model" where
  "assume_opinion i m =
     (let self = agents m ! i
      in if \<not> is_cult_leader self
         then m\<lparr>agents := (agents m)[i := self\<lparr>state := next_state self\<rparr>]\<rparr>
         else m)"

subsection \<open>\<open>ColorPatches\<close> (lines 89 to 148)\<close>

text \<open>
  \<open>self.agents.do(name)\<close> calls the method on every agent in creation order; an
  exception in one call ends the whole pass.
\<close>

fun do_determine_opinion :: "nat list \<Rightarrow> model \<Rightarrow> error + model" where
  "do_determine_opinion [] m = Inr m"
| "do_determine_opinion (i # is) m =
     (case determine_opinion i m of
        Inl e \<Rightarrow> Inl e
      | Inr m' \<Rightarrow> do_determine_opinion is m')"

definition do_assume_opinion :: "nat list \<Rightarrow> model \<Rightarrow> model" where
  "do_assume_opinion is m = fold assume_opinion is m"

definition manipulate_random_cell :: "model \<Rightarrow> error + model" where
  "manipulate_random_cell m =
     (case choice (coord_iter m) (rnd m) of
        Inl e \<Rightarrow> Inl e
      | Inr (random_position, r) \<Rightarrow>
          (case get_cell_list_contents m [random_position] of
             [] \<Rightarrow> Inl IndexError
           | agent # _ \<Rightarrow>
               Inr (m\<lparr>agents := (agents m)[agent := (agents m ! agent)
                        \<lparr>state := Some (last OPINIONS), is_cult_leader := True\<rparr>],
                      rnd := r\<rparr>)))"

definition determine_phase :: "model \<Rightarrow> error + model" where
  "determine_phase m = do_determine_opinion [0..<length (agents m)] m"

definition assume_phase :: "model \<Rightarrow> model" where
  "assume_phase m = do_assume_opinion [0..<length (agents m)] m"

definition finish_step :: "model \<Rightarrow> error + model" where
  "finish_step m =
     (let m' = m\<lparr>steps := steps m + 1\<rparr>
      in if steps m' mod 100 = 0 then manipulate_random_cell m' else Inr m')"

definition step :: "model \<Rightarrow> error + model" where
  "step m =
     (case determine_phase m of
        Inl e \<Rightarrow> Inl e
      | Inr m1 \<Rightarrow> finish_step (assume_phase m1))"

text \<open>
  The loop of lines 107 to 111: one cell per coordinate, its opinion
  \<open>OPINIONS[self.random.randrange(0, 16)]\<close>.
\<close>

fun create_cells :: "(nat \<times> nat) list \<Rightarrow> cell list \<Rightarrow> rng \<Rightarrow> error + (cell list \<times> rng)" where
  "create_cells [] acc r = Inr (acc, r)"
| "create_cells (pos # ps) acc r =
     (case randrange 0 16 r of
        Inl e \<Rightarrow> Inl e
      | Inr (k, r') \<Rightarrow> create_cells ps (acc @ [ColorCell pos (Some (OPINIONS ! k))]) r')"

text \<open>
  \<open>ColorPatches.__init__\<close> (lines 94 to 114). \<open>populate\<close> is its first part, lines 99
  to 111: the grid and one cell per coordinate, before any step. A grid with a
  dimension \<open>0\<close> has no coordinate and gets no cell. \<open>init\<close> is the whole constructor:
  it ends with the call of \<open>step\<close> on line 113, and raises when that step raises.
\<close>

definition populate :: "nat \<Rightarrow> nat \<Rightarrow> rng \<Rightarrow> error + model" where
  "populate w h r =
     (case create_cells (List.product [0..<w] [0..<h]) [] r of
        Inl e \<Rightarrow> Inl e
      | Inr (cs, r') \<Rightarrow>
          Inr \<lparr>width = w, height = h, agents = cs, steps = 0, rnd = r'\<rparr>)"

definition init :: "nat \<Rightarrow> nat \<Rightarrow> rng \<Rightarrow> error + model" where
  "init w h r = (case populate w h r of Inl e \<Rightarrow> Inl e | Inr m \<Rightarrow> step m)"

text \<open>\<open>n\<close> calls of \<open>step\<close>, ended by the first one that raises.\<close>

fun run :: "nat \<Rightarrow> model \<Rightarrow> error + model" where
  "run 0 m = Inr m"
| "run (Suc n) m = (case step m of Inl e \<Rightarrow> Inl e | Inr m' \<Rightarrow> run n m')"

text \<open>
  The states of a run: the model as the constructor returns it, and every state a
  successful \<open>step\<close> leaves. Other code of the process may draw from either
  generator between two steps, so a reachable state stays reachable under any
  generator state.
\<close>

inductive reachable :: "model \<Rightarrow> bool" where
  built: "init w h r = Inr m \<Longrightarrow> reachable m"
| stepped: "reachable m \<Longrightarrow> step m = Inr m' \<Longrightarrow> reachable m'"
| redrawn: "reachable m \<Longrightarrow> reachable (m\<lparr>rnd := r\<rparr>)"

subsection \<open>What a cell shows to the others, and sample models\<close>

text \<open>
  \<open>determine_opinion\<close> reads a cell through \<open>get_state\<close>, \<open>get_row\<close>, \<open>get_col\<close> and
  \<open>get_is_cult_leader\<close> only. \<open>visible\<close> collects these four fields, and \<open>snapshot\<close>
  is the grid as the determine phase can see it: everything but \<open>_next_state\<close>, the
  step counter and the generators.
\<close>

definition visible :: "cell \<Rightarrow> nat \<times> nat \<times> int option \<times> bool" where
  "visible c = (row c, col c, state c, is_cult_leader c)"

definition snapshot :: "model \<Rightarrow> nat \<times> nat \<times> (nat \<times> nat \<times> int option \<times> bool) list" where
  "snapshot m = (width m, height m, map visible (agents m))"

text \<open>
  A generator whose \<open>random.random()\<close> always returns \<open>0.5\<close> and whose own raw
  outputs are all \<open>0\<close>, and the grids of one column and two rows: the cell at \<open>(0, 0)\<close> with
  opinion \<open>s0\<close>, pending opinion \<open>n0\<close> and leader flag \<open>l0\<close>, the cell at \<open>(0, 1)\<close>
  with opinion \<open>s1\<close> and pending opinion \<open>n1\<close>, after \<open>k\<close> steps.
\<close>

definition rng0 :: rng where
  "rng0 = \<lparr>global_draws = (\<lambda>_. 2 ^ 52), global_pos = 0, model_draws = (\<lambda>_. 0), model_pos = 0\<rparr>"

definition grid_1x2 ::
  "int option \<Rightarrow> int option \<Rightarrow> bool \<Rightarrow> int option \<Rightarrow> int option \<Rightarrow> nat \<Rightarrow> model" where
  "grid_1x2 s0 n0 l0 s1 n1 k =
     \<lparr>width = 1, height = 2,
      agents = [\<lparr>row = 0, col = 0, state = s0, next_state = n0, is_cult_leader = l0\<rparr>,
                \<lparr>row = 0, col = 1, state = s1, next_state = n1, is_cult_leader = False\<rparr>],
      steps = k, rnd = rng0\<rparr>"

definition calm_rng :: "rng \<Rightarrow> bool" where
  "calm_rng r \<longleftrightarrow> global_draws r = (\<lambda>_. 2 ^ 52) \<and> model_draws r = (\<lambda>_. 0)"

subsection \<open>Invariants of a run\<close>

text \<open>Every leader holds the last of the \<open>OPINIONS\<close>.\<close>

definition leaders_max :: "model \<Rightarrow> bool" where
  "leaders_max m \<longleftrightarrow>
     (\<forall>c\<in>set (agents m). is_cult_leader c \<longrightarrow> state c = Some (last OPINIONS))"

text \<open>
  The agents, in creation order, sit at the coordinates of the grid in the order of
  \<open>coord_iter\<close>: the agent that the grid holds at \<open>(x, y)\<close> has \<open>_row = x\<close> and
  \<open>_col = y\<close>.
\<close>

definition grid_ok :: "model \<Rightarrow> bool" where
  "grid_ok m \<longleftrightarrow> map (\<lambda>c. (row c, col c)) (agents m) = coord_iter m"

subsection \<open>Distances between cells\<close>


definition chebyshev :: "cell \<Rightarrow> cell \<Rightarrow> int" where
  "chebyshev a b = max \<bar>int (row a) - int (row b)\<bar> \<bar>int (col a) - int (col b)\<bar>"



subsection \<open>Two runs\<close>

text \<open>
  Two generator states yield the same draws when, from their read positions on, both
  the module-level generator and the model's generator give the same raw outputs.
  Two models are the same for a run when they agree on the grid, the agents and the
  step counter and their generators yield the same draws; two results are the same
  when both raise the same error or both return models that are the same.
\<close>

definition same_draws :: "rng \<Rightarrow> rng \<Rightarrow> bool" where
  "same_draws r1 r2 \<longleftrightarrow>
     (\<forall>k. global_draws r1 (global_pos r1 + k) = global_draws r2 (global_pos r2 + k)) \<and>
     (\<forall>k. model_draws r1 (model_pos r1 + k) = model_draws r2 (model_pos r2 + k))"

definition same_model :: "model \<Rightarrow> model \<Rightarrow> bool" where
  "same_model m1 m2 \<longleftrightarrow>
     width m1 = width m2 \<and> height m1 = height m2 \<and> agents m1 = agents m2 \<and>
     steps m1 = steps m2 \<and> same_draws (rnd m1) (rnd m2)"

definition same_result :: "error + model \<Rightarrow> error + model \<Rightarrow> bool" where
  "same_result a b =
     (case a of
        Inl e1 \<Rightarrow> (case b of Inl e2 \<Rightarrow> e1 = e2 | Inr _ \<Rightarrow> False)
      | Inr m1 \<Rightarrow> (case b of Inl _ \<Rightarrow> False | Inr m2 \<Rightarrow> same_model m1 m2))"

text \<open>
  The grid of two columns and two rows with the opinions \<open>0, 0, 0, 1\<close> before
  any step, and two generator states for it. The model's
  generator is the same in both: its fourth raw output is \<open>1\<close> and all others are \<open>0\<close>.
  The module-level generator always returns \<open>0.5\<close> in the first and \<open>0.0625\<close> in the
  second.
\<close>

definition grid_2x2 :: "rng \<Rightarrow> model" where
  "grid_2x2 r =
     \<lparr>width = 2, height = 2,
      agents = [ColorCell (0, 0) (Some 0), ColorCell (0, 1) (Some 0),
                ColorCell (1, 0) (Some 0), ColorCell (1, 1) (Some 1)],
      steps = 0, rnd = r\<rparr>"

definition rng_a :: rng where
  "rng_a = \<lparr>global_draws = (\<lambda>_. 2 ^ 52), global_pos = 0,
            model_draws = (\<lambda>n. if n = 3 then 1 else 0), model_pos = 0\<rparr>"

definition rng_b :: rng where
  "rng_b = rng_a\<lparr>global_draws := (\<lambda>_. 2 ^ 49)\<rparr>"

section \<open>Properties\<close>

subsection \<open>The determine phase sees the grid as it was before the step\<close>

lemma visible_next_state [simp]: "visible (c\<lparr>next_state := v\<rparr>) = visible c"
  by (simp add: visible_def)

lemma map_update_same: "f y = f (xs ! i) \<Longrightarrow> map f (xs[i := y]) = map f xs"
  by (induction xs arbitrary: i) (auto split: nat.splits)

lemma snapshot_set_next_state [simp]: "snapshot (set_next_state i v r m) = snapshot m"
  by (simp add: snapshot_def set_next_state_def map_update_same)

lemma snapshot_rnd [simp]: "snapshot (m\<lparr>rnd := r\<rparr>) = snapshot m"
  by (simp add: snapshot_def)

lemma snapshot_length: "snapshot m1 = snapshot m2 \<Longrightarrow> length (agents m1) = length (agents m2)"
  unfolding snapshot_def by (metis length_map prod.inject)

lemma snapshot_nth:
  assumes "snapshot m1 = snapshot m2" "i < length (agents m1)"
  shows "visible (agents m1 ! i) = visible (agents m2 ! i)"
proof -
  have "map visible (agents m1) = map visible (agents m2)"
    using assms(1) by (simp add: snapshot_def)
  then have "map visible (agents m1) ! i = map visible (agents m2) ! i" by simp
  then show ?thesis using assms snapshot_length [OF assms(1)] by simp
qed

lemma grid_at_snapshot:
  assumes "snapshot m1 = snapshot m2" shows "grid_at m1 = grid_at m2"
proof -
  have "height m1 = height m2" using assms by (simp add: snapshot_def)
  then show ?thesis
    by (intro ext) (simp add: grid_at_def snapshot_length [OF assms])
qed

lemma get_neighborhood_snapshot:
  assumes "snapshot m1 = snapshot m2" shows "get_neighborhood m1 = get_neighborhood m2"
proof -
  have "height m1 = height m2" "width m1 = width m2" using assms by (simp_all add: snapshot_def)
  then show ?thesis by (intro ext) (simp add: get_neighborhood_def)
qed

lemma map_filter_grid_at_bound:
  "j \<in> set (List.map_filter (grid_at m) ps) \<Longrightarrow> j < length (agents m)"
  by (auto simp: List.map_filter_def grid_at_def Let_def split: if_splits)

lemma iter_neighbors_snapshot:
  assumes "snapshot m1 = snapshot m2"
  shows "map visible (iter_neighbors m1 pos moore ic rad) = map visible (iter_neighbors m2 pos moore ic rad)"
proof -
  have "visible (agents m1 ! j) = visible (agents m2 ! j)"
    if "j \<in> set (List.map_filter (grid_at m2) (get_neighborhood m2 pos moore ic rad))" for j
    using that assms map_filter_grid_at_bound [of j m2] snapshot_nth [of m1 m2 j] snapshot_length [of m1 m2]
    by simp
  then show ?thesis
    unfolding iter_neighbors_def grid_at_snapshot [OF assms] get_neighborhood_snapshot [OF assms]
    by simp
qed

lemma scan_cultist_visible:
  "visible n1 = visible n2 \<Longrightarrow> row s1 = row s2 \<Longrightarrow> col s1 = col s2 \<Longrightarrow>
     scan_cultist s1 acc n1 = scan_cultist s2 acc n2"
  by (cases acc) (simp add: scan_cultist_def visible_def)

lemma foldl_scan_cultist_visible:
  "map visible xs = map visible ys \<Longrightarrow> row s1 = row s2 \<Longrightarrow> col s1 = col s2 \<Longrightarrow>
     foldl (scan_cultist s1) acc xs = foldl (scan_cultist s2) acc ys"
proof (induction xs arbitrary: ys acc)
  case Nil
  then show ?case by simp
next
  case (Cons x xs)
  then obtain y ys' where ys: "ys = y # ys'" by (cases ys) auto
  with Cons.prems have "visible x = visible y" "map visible xs = map visible ys'" by auto
  with Cons ys show ?case
    by (simp add: scan_cultist_visible [of x y s1 s2])
qed

lemma map_state_visible:
  "map visible xs = map visible ys \<Longrightarrow> map state xs = map state ys"
proof (induction xs arbitrary: ys)
  case Nil
  then show ?case by simp
next
  case (Cons x xs)
  then obtain y ys' where ys: "ys = y # ys'" by (cases ys) auto
  with Cons.prems have hd: "visible x = visible y" and tl: "map visible xs = map visible ys'"
    by auto
  have "map state xs = map state ys'" by (rule Cons.IH [OF tl])
  moreover have "state x = state y" using hd by (simp add: visible_def)
  ultimately show ?case using ys by simp
qed

lemma next_opinion_snapshot:
  assumes "snapshot m1 = snapshot m2" "rnd m1 = rnd m2" "row s1 = row s2" "col s1 = col s2"
  shows "next_opinion m1 s1 = next_opinion m2 s2"
proof -
  have nb: "map state (neighbor_iter m1 s1) = map state (neighbor_iter m2 s2)"
    unfolding neighbor_iter_def assms(3,4)
    by (rule map_state_visible) (rule iter_neighbors_snapshot [OF assms(1)])
  have cs: "cultist_scan m1 s1 = cultist_scan m2 s2"
    unfolding cultist_scan_def check_cultist_iter_def
    by (rule foldl_scan_cultist_visible) (simp_all add: assms iter_neighbors_snapshot [OF assms(1)])
  have po: "polled_opinions m1 s1 = polled_opinions m2 s2"
    by (simp add: polled_opinions_def neighbors_opinion_def nb)
  have ti: "tied_opinions m1 s1 = tied_opinions m2 s2"
    and lo: "low_tied_opinions m1 s1 = low_tied_opinions m2 s2"
    by (simp_all add: tied_opinions_def low_tied_opinions_def po)
  show ?thesis
    unfolding next_opinion_def cs ti lo assms(2) ..
qed


lemma determine_opinion_result:
  assumes "determine_opinion i m = Inr m'"
  shows "\<exists>v r. next_opinion m (agents m ! i) = Inr (v, r) \<and> m' = set_next_state i v r m"
proof (cases "next_opinion m (agents m ! i)")
  case (Inl e)
  with assms show ?thesis by (simp add: determine_opinion_def)
next
  case (Inr p)
  obtain v r where "p = (v, r)" by (cases p)
  with Inr assms show ?thesis by (simp add: determine_opinion_def)
qed

lemma set_next_state_agents:
  "agents (set_next_state i v r m) = (agents m)[i := (agents m ! i)\<lparr>next_state := v\<rparr>]"
  "width (set_next_state i v r m) = width m"
  "height (set_next_state i v r m) = height m"
  "steps (set_next_state i v r m) = steps m"
  "rnd (set_next_state i v r m) = r"
  by (simp_all add: set_next_state_def)

lemma next_state_set_next_state:
  "next_state (agents (set_next_state i v r m) ! j) =
     (if j = i \<and> i < length (agents m) then v else next_state (agents m ! j))"
  by (cases "i < length (agents m)")
    (auto simp: set_next_state_agents nth_list_update list_update_beyond)

lemma do_determine_opinion_pre:
  assumes "do_determine_opinion is m0 = Inr m'" "snapshot m0 = snapshot m" "distinct is"
  shows "snapshot m' = snapshot m \<and> steps m' = steps m0 \<and>
         (\<forall>j. j \<notin> set is \<longrightarrow> next_state (agents m' ! j) = next_state (agents m0 ! j)) \<and>
         (\<forall>i\<in>set is. i < length (agents m) \<longrightarrow>
            (\<exists>r r'. next_opinion (m\<lparr>rnd := r\<rparr>) (agents m ! i) = Inr (next_state (agents m' ! i), r')))"
  using assms
proof (induction "is" arbitrary: m0)
  case Nil
  then show ?case by simp
next
  case (Cons i "is")
  from Cons.prems(1) obtain m1 where d: "determine_opinion i m0 = Inr m1"
    and rest: "do_determine_opinion is m1 = Inr m'"
    by (auto split: sum.splits)
  from determine_opinion_result [OF d] obtain v r1
    where no: "next_opinion m0 (agents m0 ! i) = Inr (v, r1)" and m1: "m1 = set_next_state i v r1 m0"
    by blast
  have snap1: "snapshot m1 = snapshot m" using m1 Cons.prems(2) by simp
  from Cons.prems(3) have dis: "distinct is" and notin: "i \<notin> set is" by simp_all
  note ih = Cons.IH [OF rest snap1 dis]
  have len: "length (agents m0) = length (agents m)"
    by (rule snapshot_length [OF Cons.prems(2)])
  have a: "snapshot m' = snapshot m" using ih by blast
  have b: "steps m' = steps m0" using ih m1 by (simp add: set_next_state_agents)
  have c: "\<forall>j. j \<notin> set (i # is) \<longrightarrow> next_state (agents m' ! j) = next_state (agents m0 ! j)"
    using ih m1 by (simp add: next_state_set_next_state)
  have here: "\<exists>r r'. next_opinion (m\<lparr>rnd := r\<rparr>) (agents m ! i) = Inr (next_state (agents m' ! i), r')"
    if lt: "i < length (agents m)"
  proof -
    have "next_state (agents m' ! i) = next_state (agents m1 ! i)" using ih notin by blast
    also have "\<dots> = v" using m1 lt len by (simp add: next_state_set_next_state)
    finally have v: "next_state (agents m' ! i) = v" .
    have vis: "visible (agents m0 ! i) = visible (agents m ! i)"
      using snapshot_nth [OF Cons.prems(2)] lt len by simp
    then have rc: "row (agents m0 ! i) = row (agents m ! i)" "col (agents m0 ! i) = col (agents m ! i)"
      by (simp_all add: visible_def)
    have "next_opinion m0 (agents m0 ! i) = next_opinion (m\<lparr>rnd := rnd m0\<rparr>) (agents m ! i)"
      by (rule next_opinion_snapshot) (simp_all add: Cons.prems(2) rc)
    with no v show ?thesis by metis
  qed
  have d': "\<forall>k\<in>set (i # is). k < length (agents m) \<longrightarrow>
            (\<exists>r r'. next_opinion (m\<lparr>rnd := r\<rparr>) (agents m ! k) = Inr (next_state (agents m' ! k), r'))"
    using here ih by auto
  from a b c d' show ?case by blast
qed

subsection \<open>Evaluation on the grids of one column and two rows\<close>

lemma upt_0_2: "[0..<2] = [0, Suc 0]" "[0..<Suc 0] = [0]" "[Suc 0..<2] = [Suc 0]"
  by (simp_all add: upt_rec)

lemma nbh_1x2:
  "get_neighborhood (grid_1x2 s0 n0 l0 s1 n1 k\<lparr>rnd := r\<rparr>) (0, 0) True False (Suc 0) = [(0, Suc 0)]"
  "get_neighborhood (grid_1x2 s0 n0 l0 s1 n1 k\<lparr>rnd := r\<rparr>) (0, Suc 0) True False (Suc 0) = [(0, 0)]"
  "get_neighborhood (grid_1x2 s0 n0 l0 s1 n1 k\<lparr>rnd := r\<rparr>) (0, 0) False False 4 = [(0, Suc 0)]"
  "get_neighborhood (grid_1x2 s0 n0 l0 s1 n1 k\<lparr>rnd := r\<rparr>) (0, Suc 0) False False 4 = [(0, 0)]"
  by (simp_all add: get_neighborhood_def grid_1x2_def upt_0_2)

lemma iter_1x2:
  "iter_neighbors (grid_1x2 s0 n0 l0 s1 n1 k\<lparr>rnd := r\<rparr>) (0, 0) True False (Suc 0) =
     [\<lparr>row = 0, col = 1, state = s1, next_state = n1, is_cult_leader = False\<rparr>]"
  "iter_neighbors (grid_1x2 s0 n0 l0 s1 n1 k\<lparr>rnd := r\<rparr>) (0, Suc 0) True False (Suc 0) =
     [\<lparr>row = 0, col = 0, state = s0, next_state = n0, is_cult_leader = l0\<rparr>]"
  "iter_neighbors (grid_1x2 s0 n0 l0 s1 n1 k\<lparr>rnd := r\<rparr>) (0, 0) False False 4 =
     [\<lparr>row = 0, col = 1, state = s1, next_state = n1, is_cult_leader = False\<rparr>]"
  "iter_neighbors (grid_1x2 s0 n0 l0 s1 n1 k\<lparr>rnd := r\<rparr>) (0, Suc 0) False False 4 =
     [\<lparr>row = 0, col = 0, state = s0, next_state = n0, is_cult_leader = l0\<rparr>]"
  unfolding iter_neighbors_def nbh_1x2
  by (simp_all add: List.map_filter_def grid_at_def grid_1x2_def)

lemma random_random_half:
  "global_draws r = (\<lambda>_. 2 ^ 52) \<Longrightarrow>
     random_random r = (1 / 2, r\<lparr>global_pos := Suc (global_pos r)\<rparr>)"
  by (simp add: random_random_def)

lemma half_thresholds:
  "\<not> 1 / 2 < low_tie_threshold" "1 / 2 < leader_threshold 1"
  by (simp_all add: low_tie_threshold_def leader_threshold_def)

lemma most_common_single: "most_common [kc] = [kc]"
  by (simp add: most_common_def)

lemma tied_1x2:
  assumes "row c = 0" "col c = 0"
  shows "tied_opinions (grid_1x2 s0 n0 l0 s1 n1 k\<lparr>rnd := r\<rparr>) c = [(s1, 1)]"
    and "low_tied_opinions (grid_1x2 s0 n0 l0 s1 n1 k\<lparr>rnd := r\<rparr>) c = [(s1, 1)]"
    and "cultist_scan (grid_1x2 s0 n0 l0 s1 n1 k\<lparr>rnd := r\<rparr>) c = (None, 10000)"
  by (simp_all add: tied_opinions_def low_tied_opinions_def polled_opinions_def
      neighbors_opinion_def neighbor_iter_def assms iter_1x2 Counter_def most_common_single
      cultist_scan_def check_cultist_iter_def cultist_influence_def scan_cultist_def)

lemma tied_1x2':
  assumes "row c = 0" "col c = 1"
  shows "tied_opinions (grid_1x2 s0 n0 l0 s1 n1 k\<lparr>rnd := r\<rparr>) c = [(s0, 1)]"
    and "low_tied_opinions (grid_1x2 s0 n0 l0 s1 n1 k\<lparr>rnd := r\<rparr>) c = [(s0, 1)]"
    and "cultist_scan (grid_1x2 s0 n0 l0 s1 n1 k\<lparr>rnd := r\<rparr>) c = (if l0 then (s0, 1) else (None, 10000))"
  by (simp_all add: tied_opinions_def low_tied_opinions_def polled_opinions_def
      neighbors_opinion_def neighbor_iter_def assms iter_1x2 Counter_def most_common_single
      cultist_scan_def check_cultist_iter_def cultist_influence_def scan_cultist_def)

lemma next_opinion_1x2_0:
  assumes "row c = 0" "col c = 0" "global_draws r = (\<lambda>_. 2 ^ 52)"
  shows "next_opinion (grid_1x2 s0 n0 l0 s1 n1 k\<lparr>rnd := r\<rparr>) c =
           Inr (s1, r\<lparr>global_pos := Suc (global_pos r), model_pos := Suc (model_pos r)\<rparr>)"
  by (simp add: next_opinion_def tied_1x2 [OF assms(1,2)] truthy_def
      random_random_half [OF assms(3)] half_thresholds choice_def randbelow_def)

lemma next_opinion_1x2_1:
  assumes "row c = 0" "col c = 1" "calm_rng r"
  shows "\<exists>r'. next_opinion (grid_1x2 s0 n0 l0 s1 n1 k\<lparr>rnd := r\<rparr>) c = Inr (s0, r') \<and>
           calm_rng r'"
proof -
  have g: "global_draws r = (\<lambda>_. 2 ^ 52)" "model_draws r = (\<lambda>_. 0)"
    using assms(3) by (simp_all add: calm_rng_def)
  have g': "global_draws (r\<lparr>global_pos := p\<rparr>) = (\<lambda>_. 2 ^ 52)" for p
    using g by simp
  show ?thesis
    by (simp add: next_opinion_def tied_1x2' [OF assms(1,2)] truthy_def
        random_random_half [OF g(1)] random_random_half [OF g'] half_thresholds
        choice_def randbelow_def calm_rng_def g split: option.splits)
qed

lemma set_next_state_1x2:
  "set_next_state 0 v r' (grid_1x2 s0 n0 l0 s1 n1 k\<lparr>rnd := r\<rparr>) = grid_1x2 s0 v l0 s1 n1 k\<lparr>rnd := r'\<rparr>"
  "set_next_state (Suc 0) v r' (grid_1x2 s0 n0 l0 s1 n1 k\<lparr>rnd := r\<rparr>) = grid_1x2 s0 n0 l0 s1 v k\<lparr>rnd := r'\<rparr>"
  by (simp_all add: set_next_state_def grid_1x2_def)

lemma agents_1x2:
  "agents (grid_1x2 s0 n0 l0 s1 n1 k\<lparr>rnd := r\<rparr>) ! 0 =
     \<lparr>row = 0, col = 0, state = s0, next_state = n0, is_cult_leader = l0\<rparr>"
  "agents (grid_1x2 s0 n0 l0 s1 n1 k\<lparr>rnd := r\<rparr>) ! Suc 0 =
     \<lparr>row = 0, col = 1, state = s1, next_state = n1, is_cult_leader = False\<rparr>"
  "length (agents (grid_1x2 s0 n0 l0 s1 n1 k\<lparr>rnd := r\<rparr>)) = 2"
  "length (agents (grid_1x2 s0 n0 l0 s1 n1 k)) = 2"
  "rnd (grid_1x2 s0 n0 l0 s1 n1 k\<lparr>rnd := r\<rparr>) = r"
  by (simp_all add: grid_1x2_def)

lemma determine_opinion_1x2_0:
  assumes "calm_rng r"
  shows "\<exists>r'. determine_opinion 0 (grid_1x2 s0 n0 l0 s1 n1 k\<lparr>rnd := r\<rparr>) =
           Inr (grid_1x2 s0 s1 l0 s1 n1 k\<lparr>rnd := r'\<rparr>) \<and> calm_rng r'"
proof -
  have g: "global_draws r = (\<lambda>_. 2 ^ 52)" using assms by (simp add: calm_rng_def)
  let ?r = "r\<lparr>global_pos := Suc (global_pos r), model_pos := Suc (model_pos r)\<rparr>"
  have "determine_opinion 0 (grid_1x2 s0 n0 l0 s1 n1 k\<lparr>rnd := r\<rparr>) =
           Inr (grid_1x2 s0 s1 l0 s1 n1 k\<lparr>rnd := ?r\<rparr>)"
    unfolding determine_opinion_def agents_1x2
    by (simp add: next_opinion_1x2_0 [OF _ _ g] set_next_state_1x2)
  moreover have "calm_rng ?r" using assms by (simp add: calm_rng_def)
  ultimately show ?thesis by blast
qed

lemma determine_opinion_1x2_1:
  assumes "calm_rng r"
  shows "\<exists>r'. determine_opinion (Suc 0) (grid_1x2 s0 n0 l0 s1 n1 k\<lparr>rnd := r\<rparr>) =
           Inr (grid_1x2 s0 n0 l0 s1 s0 k\<lparr>rnd := r'\<rparr>) \<and> calm_rng r'"
proof -
  let ?c = "\<lparr>row = 0, col = 1, state = s1, next_state = n1, is_cult_leader = False\<rparr>"
  have "row ?c = 0" "col ?c = 1" by simp_all
  from next_opinion_1x2_1 [OF this assms] obtain r' where
    no: "next_opinion (grid_1x2 s0 n0 l0 s1 n1 k\<lparr>rnd := r\<rparr>) ?c = Inr (s0, r')" and c: "calm_rng r'"
    by blast
  have "determine_opinion (Suc 0) (grid_1x2 s0 n0 l0 s1 n1 k\<lparr>rnd := r\<rparr>) =
           Inr (grid_1x2 s0 n0 l0 s1 s0 k\<lparr>rnd := r'\<rparr>)"
    unfolding determine_opinion_def agents_1x2 no
    by (simp add: set_next_state_1x2)
  with c show ?thesis by blast
qed

lemma determine_phase_1x2:
  assumes "calm_rng r"
  shows "\<exists>r'. determine_phase (grid_1x2 s0 n0 l0 s1 n1 k\<lparr>rnd := r\<rparr>) =
           Inr (grid_1x2 s0 s1 l0 s1 s0 k\<lparr>rnd := r'\<rparr>) \<and> calm_rng r'"
proof -
  from determine_opinion_1x2_0 [OF assms] obtain r1 where
    d0: "determine_opinion 0 (grid_1x2 s0 n0 l0 s1 n1 k\<lparr>rnd := r\<rparr>) =
           Inr (grid_1x2 s0 s1 l0 s1 n1 k\<lparr>rnd := r1\<rparr>)" and c1: "calm_rng r1"
    by blast
  from determine_opinion_1x2_1 [OF c1] obtain r2 where
    d1: "determine_opinion (Suc 0) (grid_1x2 s0 s1 l0 s1 n1 k\<lparr>rnd := r1\<rparr>) =
           Inr (grid_1x2 s0 s1 l0 s1 s0 k\<lparr>rnd := r2\<rparr>)" and c2: "calm_rng r2"
    by blast
  have "determine_phase (grid_1x2 s0 n0 l0 s1 n1 k\<lparr>rnd := r\<rparr>) =
           Inr (grid_1x2 s0 s1 l0 s1 s0 k\<lparr>rnd := r2\<rparr>)"
    by (simp add: determine_phase_def agents_1x2 upt_0_2 d0 d1)
  with c2 show ?thesis by blast
qed

lemma assume_phase_1x2:
  "assume_phase (grid_1x2 s0 n0 l0 s1 n1 k\<lparr>rnd := r\<rparr>) =
     grid_1x2 (if l0 then s0 else n0) n0 l0 n1 n1 k\<lparr>rnd := r\<rparr>"
  by (simp add: assume_phase_def do_assume_opinion_def assume_opinion_def grid_1x2_def upt_0_2)

lemma finish_step_1x2:
  assumes "calm_rng r"
  shows "\<exists>r'. finish_step (grid_1x2 s0 n0 l0 s1 n1 k\<lparr>rnd := r\<rparr>) =
           Inr ((if Suc k mod 100 = 0 then grid_1x2 (Some 16) n0 True s1 n1 (Suc k)
                 else grid_1x2 s0 n0 l0 s1 n1 (Suc k))\<lparr>rnd := r'\<rparr>)"
  using assms
  by (simp add: finish_step_def manipulate_random_cell_def coord_iter_def choice_def randbelow_def
      get_cell_list_contents_def List.map_filter_def grid_at_def grid_1x2_def upt_0_2 calm_rng_def
      OPINIONS_def)

lemma step_1x2:
  assumes "calm_rng r"
  shows "\<exists>r'. step (grid_1x2 s0 n0 l0 s1 n1 k\<lparr>rnd := r\<rparr>) =
           Inr ((if Suc k mod 100 = 0 then grid_1x2 (Some 16) s1 True s0 s0 (Suc k)
                 else grid_1x2 (if l0 then s0 else s1) s1 l0 s0 s0 (Suc k))\<lparr>rnd := r'\<rparr>)"
proof -
  from determine_phase_1x2 [OF assms] obtain r1 where
    dp: "determine_phase (grid_1x2 s0 n0 l0 s1 n1 k\<lparr>rnd := r\<rparr>) =
           Inr (grid_1x2 s0 s1 l0 s1 s0 k\<lparr>rnd := r1\<rparr>)" and c1: "calm_rng r1"
    by blast
  from finish_step_1x2 [OF c1] show ?thesis
    by (simp add: step_def dp assume_phase_1x2)
qed

subsection \<open>Construction of the model\<close>

lemma randrange_16:
  "randrange 0 16 r = Inr (model_draws r (model_pos r) mod 16, r\<lparr>model_pos := Suc (model_pos r)\<rparr>)"
  by (simp add: randrange_def randbelow_def)

lemma create_cells_spec:
  "create_cells ps acc r = Inr (cs, r') \<Longrightarrow>
     length cs = length acc + length ps \<and>
     (\<forall>j<length acc. cs ! j = acc ! j) \<and>
     (\<forall>j<length ps. cs ! (length acc + j) =
        ColorCell (ps ! j) (Some (OPINIONS ! (model_draws r (model_pos r + j) mod 16)))) \<and>
     r' = r\<lparr>model_pos := model_pos r + length ps\<rparr>"
proof (induction ps arbitrary: acc r)
  case Nil
  then show ?case by simp
next
  case (Cons p ps)
  let ?c = "ColorCell p (Some (OPINIONS ! (model_draws r (model_pos r) mod 16)))"
  let ?r = "r\<lparr>model_pos := Suc (model_pos r)\<rparr>"
  from Cons.prems have run: "create_cells ps (acc @ [?c]) ?r = Inr (cs, r')"
    by (simp add: randrange_16)
  note ih = Cons.IH [OF run]
  have len: "length cs = length acc + length (p # ps)" using ih by simp
  have pre: "\<forall>j<length acc. cs ! j = acc ! j"
    using ih by (auto simp: nth_append)
  have here: "cs ! length acc = ?c"
    using ih by (auto simp: nth_append)
  have rest: "\<forall>j<length ps. cs ! (length acc + Suc j) =
        ColorCell (ps ! j) (Some (OPINIONS ! (model_draws r (model_pos r + Suc j) mod 16)))"
    using ih by simp
  have all: "\<forall>j<length (p # ps). cs ! (length acc + j) =
        ColorCell ((p # ps) ! j) (Some (OPINIONS ! (model_draws r (model_pos r + j) mod 16)))"
  proof (intro allI impI)
    fix j assume "j < length (p # ps)"
    then show "cs ! (length acc + j) =
        ColorCell ((p # ps) ! j) (Some (OPINIONS ! (model_draws r (model_pos r + j) mod 16)))"
      using here rest by (cases j) auto
  qed
  have "r' = r\<lparr>model_pos := model_pos r + length (p # ps)\<rparr>" using ih by simp
  with len pre all show ?case by blast
qed

lemma create_cells_total: "\<exists>cs r'. create_cells ps acc r = Inr (cs, r')"
  by (induction ps arbitrary: acc r) (auto simp: randrange_16)

lemma OPINIONS_upt: "OPINIONS = map int [0..<17]"
  by (simp add: OPINIONS_def upt_rec)

lemma OPINIONS_nth: "k < 17 \<Longrightarrow> OPINIONS ! k = int k"
  by (simp add: OPINIONS_upt)

lemma last_OPINIONS: "last OPINIONS = 16"
  by (simp add: OPINIONS_def)

lemma populate_cells:
  assumes "populate w h r = Inr m"
  shows "width m = w" and "height m = h" and "steps m = 0"
    and "length (agents m) = w * h"
    and "rnd m = r\<lparr>model_pos := model_pos r + w * h\<rparr>"
    and "\<And>i. i < w * h \<Longrightarrow> agents m ! i =
       ColorCell (List.product [0..<w] [0..<h] ! i)
         (Some (int (model_draws r (model_pos r + i) mod 16)))"
proof -
  from assms obtain cs r' where cc: "create_cells (List.product [0..<w] [0..<h]) [] r = Inr (cs, r')"
    and m: "m = \<lparr>width = w, height = h, agents = cs, steps = 0, rnd = r'\<rparr>"
    by (auto simp: populate_def split: sum.splits)
  note sp = create_cells_spec [OF cc]
  show "width m = w" "height m = h" "steps m = 0" using m by simp_all
  show "length (agents m) = w * h" using sp m by simp
  show "rnd m = r\<lparr>model_pos := model_pos r + w * h\<rparr>" using sp m by simp
  show "agents m ! i = ColorCell (List.product [0..<w] [0..<h] ! i)
         (Some (int (model_draws r (model_pos r + i) mod 16)))" if "i < w * h" for i
  proof -
    have "model_draws r (model_pos r + i) mod 16 < 17"
      by (rule less_trans [OF mod_less_divisor]) simp_all
    then show ?thesis using sp m that by (simp add: OPINIONS_nth)
  qed
qed

lemma populate_total: "\<exists>m. populate w h r = Inr m"
  using create_cells_total [of "List.product [0..<w] [0..<h]" "[]" r]
  by (auto simp: populate_def)

lemma populate_1x2:
  "populate 1 2 rng0 = Inr (grid_1x2 (Some 0) None False (Some 0) None 0\<lparr>rnd := rng0\<lparr>model_pos := 2\<rparr>\<rparr>)"
  by (simp add: populate_def upt_0_2 randrange_16 ColorCell_def OPINIONS_def grid_1x2_def rng0_def)

lemma leaders_max_nth:
  "leaders_max m \<longleftrightarrow> (\<forall>j<length (agents m). is_cult_leader (agents m ! j) \<longrightarrow> state (agents m ! j) = Some 16)"
  by (simp add: leaders_max_def last_OPINIONS all_set_conv_all_nth)

lemma leaders_max_snapshot:
  assumes "snapshot m1 = snapshot m2" shows "leaders_max m1 = leaders_max m2"
proof -
  have l: "length (agents m1) = length (agents m2)" by (rule snapshot_length [OF assms])
  have "is_cult_leader (agents m1 ! j) = is_cult_leader (agents m2 ! j) \<and>
        state (agents m1 ! j) = state (agents m2 ! j)" if "j < length (agents m1)" for j
    using snapshot_nth [OF assms that] by (simp add: visible_def)
  then show ?thesis using l by (simp add: leaders_max_nth)
qed

lemma do_determine_opinion_snapshot:
  "do_determine_opinion is m = Inr m' \<Longrightarrow> snapshot m' = snapshot m"
proof (induction "is" arbitrary: m)
  case Nil
  then show ?case by simp
next
  case (Cons i "is")
  from Cons.prems obtain m1 where d: "determine_opinion i m = Inr m1"
    and rest: "do_determine_opinion is m1 = Inr m'"
    by (auto split: sum.splits)
  from determine_opinion_result [OF d] have "snapshot m1 = snapshot m" by auto
  with Cons.IH [OF rest] show ?case by simp
qed

lemma assume_opinion_cells:
  "length (agents (assume_opinion i m)) = length (agents m)"
  "is_cult_leader (agents (assume_opinion i m) ! j) = is_cult_leader (agents m ! j)"
  "row (agents (assume_opinion i m) ! j) = row (agents m ! j)"
  "col (agents (assume_opinion i m) ! j) = col (agents m ! j)"
  "is_cult_leader (agents m ! j) \<Longrightarrow> state (agents (assume_opinion i m) ! j) = state (agents m ! j)"
  "width (assume_opinion i m) = width m"
  "height (assume_opinion i m) = height m"
  "steps (assume_opinion i m) = steps m"
  "rnd (assume_opinion i m) = rnd m"
  by (cases "i < length (agents m)"; cases "j = i";
      simp add: assume_opinion_def Let_def list_update_beyond)+

lemma do_assume_opinion_cells:
  "length (agents (do_assume_opinion is m)) = length (agents m) \<and>
   is_cult_leader (agents (do_assume_opinion is m) ! j) = is_cult_leader (agents m ! j) \<and>
   row (agents (do_assume_opinion is m) ! j) = row (agents m ! j) \<and>
   col (agents (do_assume_opinion is m) ! j) = col (agents m ! j) \<and>
   (is_cult_leader (agents m ! j) \<longrightarrow> state (agents (do_assume_opinion is m) ! j) = state (agents m ! j)) \<and>
   width (do_assume_opinion is m) = width m \<and>
   height (do_assume_opinion is m) = height m \<and>
   steps (do_assume_opinion is m) = steps m \<and>
   rnd (do_assume_opinion is m) = rnd m"
  unfolding do_assume_opinion_def
proof (induction "is" arbitrary: m)
  case Nil
  then show ?case by simp
next
  case (Cons i "is")
  show ?case
    using Cons.IH [of "assume_opinion i m"] by (simp add: assume_opinion_cells)
qed

lemma leaders_max_do_assume_opinion:
  assumes "leaders_max m" shows "leaders_max (do_assume_opinion is m)"
  using assms do_assume_opinion_cells [of "is" m]
  by (simp add: leaders_max_nth)

lemma manipulate_random_cell_cells:
  assumes "manipulate_random_cell m = Inr m'"
  shows "length (agents m') = length (agents m)"
    and "width m' = width m" and "height m' = height m" and "steps m' = steps m"
    and "row (agents m' ! j) = row (agents m ! j)"
    and "col (agents m' ! j) = col (agents m ! j)"
    and "is_cult_leader (agents m ! j) \<Longrightarrow> is_cult_leader (agents m' ! j)"
    and "j < length (agents m) \<Longrightarrow> state (agents m' ! j) = Some 16 \<and> is_cult_leader (agents m' ! j) \<or>
           state (agents m' ! j) = state (agents m ! j) \<and>
           is_cult_leader (agents m' ! j) = is_cult_leader (agents m ! j)"
proof -
  from assms obtain a r where
    m': "m' = m\<lparr>agents := (agents m)[a := (agents m ! a)\<lparr>state := Some 16, is_cult_leader := True\<rparr>],
              rnd := r\<rparr>"
    by (auto simp: manipulate_random_cell_def last_OPINIONS split: sum.splits list.splits)
  show "length (agents m') = length (agents m)" "width m' = width m" "height m' = height m"
    "steps m' = steps m"
    by (simp_all add: m')
  show "row (agents m' ! j) = row (agents m ! j)" "col (agents m' ! j) = col (agents m ! j)"
    by (cases "a < length (agents m)"; cases "j = a"; simp add: m' list_update_beyond)+
  show "is_cult_leader (agents m ! j) \<Longrightarrow> is_cult_leader (agents m' ! j)"
    by (cases "a < length (agents m)"; cases "j = a"; simp add: m' list_update_beyond)
  show "j < length (agents m) \<Longrightarrow> state (agents m' ! j) = Some 16 \<and> is_cult_leader (agents m' ! j) \<or>
           state (agents m' ! j) = state (agents m ! j) \<and>
           is_cult_leader (agents m' ! j) = is_cult_leader (agents m ! j)"
    by (cases "j = a") (simp_all add: m')
qed

lemma finish_step_cells:
  assumes "finish_step m = Inr m'"
  shows "length (agents m') = length (agents m)"
    and "width m' = width m" and "height m' = height m" and "steps m' = Suc (steps m)"
    and "row (agents m' ! j) = row (agents m ! j)"
    and "col (agents m' ! j) = col (agents m ! j)"
    and "is_cult_leader (agents m ! j) \<Longrightarrow> is_cult_leader (agents m' ! j)"
    and "j < length (agents m) \<Longrightarrow> state (agents m' ! j) = Some 16 \<and> is_cult_leader (agents m' ! j) \<or>
           state (agents m' ! j) = state (agents m ! j) \<and>
           is_cult_leader (agents m' ! j) = is_cult_leader (agents m ! j)"
proof -
  let ?m = "m\<lparr>steps := Suc (steps m)\<rparr>"
  have "manipulate_random_cell ?m = Inr m' \<or> m' = ?m"
    using assms by (simp add: finish_step_def Let_def split: if_splits)
  then consider "manipulate_random_cell ?m = Inr m'" | "m' = ?m"
    by blast
  then have "length (agents m') = length (agents m) \<and> width m' = width m \<and> height m' = height m \<and>
    steps m' = Suc (steps m) \<and> row (agents m' ! j) = row (agents m ! j) \<and>
    col (agents m' ! j) = col (agents m ! j) \<and>
    (is_cult_leader (agents m ! j) \<longrightarrow> is_cult_leader (agents m' ! j)) \<and>
    (j < length (agents m) \<longrightarrow> state (agents m' ! j) = Some 16 \<and> is_cult_leader (agents m' ! j) \<or>
           state (agents m' ! j) = state (agents m ! j) \<and>
           is_cult_leader (agents m' ! j) = is_cult_leader (agents m ! j))"
  proof cases
    case 1
    show ?thesis using manipulate_random_cell_cells [OF 1] by simp
  next
    case 2
    then show ?thesis by simp
  qed
  then show "length (agents m') = length (agents m)"
    and "width m' = width m" and "height m' = height m" and "steps m' = Suc (steps m)"
    and "row (agents m' ! j) = row (agents m ! j)"
    and "col (agents m' ! j) = col (agents m ! j)"
    and "is_cult_leader (agents m ! j) \<Longrightarrow> is_cult_leader (agents m' ! j)"
    and "j < length (agents m) \<Longrightarrow> state (agents m' ! j) = Some 16 \<and> is_cult_leader (agents m' ! j) \<or>
           state (agents m' ! j) = state (agents m ! j) \<and>
           is_cult_leader (agents m' ! j) = is_cult_leader (agents m ! j)"
    by blast+
qed

lemma leaders_max_finish_step:
  assumes "leaders_max m" "finish_step m = Inr m'" shows "leaders_max m'"
  unfolding leaders_max_nth
proof (intro allI impI)
  fix j assume j: "j < length (agents m')" and l: "is_cult_leader (agents m' ! j)"
  from j have j': "j < length (agents m)" by (simp add: finish_step_cells(1) [OF assms(2)])
  from finish_step_cells(8) [OF assms(2) j'] l assms(1) j'
  show "state (agents m' ! j) = Some 16" by (auto simp: leaders_max_nth)
qed

lemma leaders_max_populate:
  assumes "populate w h r = Inr m" shows "leaders_max m"
  unfolding leaders_max_nth
  using populate_cells(4,6) [OF assms] by (simp add: ColorCell_def)

lemma step_phases:
  assumes "step m = Inr m'"
  obtains m1 where "determine_phase m = Inr m1" "snapshot m1 = snapshot m"
    "finish_step (assume_phase m1) = Inr m'"
proof -
  from assms obtain m1 where d: "determine_phase m = Inr m1"
    and f: "finish_step (assume_phase m1) = Inr m'"
    by (auto simp: step_def split: sum.splits)
  from d have "snapshot m1 = snapshot m"
    unfolding determine_phase_def by (rule do_determine_opinion_snapshot)
  with d f that show ?thesis by blast
qed

lemma leaders_max_step:
  assumes "leaders_max m" "step m = Inr m'" shows "leaders_max m'"
proof -
  from assms(2) obtain m1 where s: "snapshot m1 = snapshot m"
    and f: "finish_step (assume_phase m1) = Inr m'"
    by (rule step_phases)
  have "leaders_max m1" using assms(1) leaders_max_snapshot [OF s] by simp
  then have "leaders_max (assume_phase m1)"
    unfolding assume_phase_def by (rule leaders_max_do_assume_opinion)
  then show ?thesis using f by (rule leaders_max_finish_step)
qed

lemma init_phases:
  assumes "init w h r = Inr m"
  obtains m0 where "populate w h r = Inr m0" "step m0 = Inr m"
  using assms by (auto simp: init_def split: sum.splits)

lemma reachable_leaders_max: "reachable m \<Longrightarrow> leaders_max m"
proof (induction rule: reachable.induct)
  case (built w h r m)
  then obtain m0 where "populate w h r = Inr m0" "step m0 = Inr m" by (rule init_phases)
  then show ?case using leaders_max_populate leaders_max_step by blast
next
  case (stepped m m')
  then show ?case by (simp add: leaders_max_step)
next
  case (redrawn m r)
  then show ?case by (simp add: leaders_max_def)
qed

lemma step_keeps_leaders:
  assumes "leaders_max m" "step m = Inr m'" "i < length (agents m)" "is_cult_leader (agents m ! i)"
  shows "is_cult_leader (agents m' ! i) \<and> state (agents m' ! i) = state (agents m ! i)"
proof -
  from assms(2) obtain m1 where s: "snapshot m1 = snapshot m"
    and f: "finish_step (assume_phase m1) = Inr m'"
    by (rule step_phases)
  have i1: "i < length (agents m1)" using assms(3) snapshot_length [OF s] by simp
  from snapshot_nth [OF s i1] have v: "is_cult_leader (agents m1 ! i) = is_cult_leader (agents m ! i)"
    "state (agents m1 ! i) = state (agents m ! i)"
    by (simp_all add: visible_def)
  let ?m2 = "assume_phase m1"
  have a: "is_cult_leader (agents ?m2 ! i)" "state (agents ?m2 ! i) = state (agents m ! i)"
    "i < length (agents ?m2)"
    using do_assume_opinion_cells [of "[0..<length (agents m1)]" m1 i] v assms(4) i1
    by (simp_all add: assume_phase_def)
  have st: "state (agents m ! i) = Some 16" using assms(1,3,4) by (simp add: leaders_max_nth)
  from finish_step_cells(7) [OF f a(1)] finish_step_cells(8) [OF f a(3)] a st
  show ?thesis by auto
qed


lemma grid_1x2_rnd:
  "grid_1x2 s0 n0 l0 s1 n1 k\<lparr>rnd := rng0\<rparr> = grid_1x2 s0 n0 l0 s1 n1 k"
  "(grid_1x2 s0 n0 l0 s1 n1 k\<lparr>rnd := r\<rparr>)\<lparr>rnd := r'\<rparr> = grid_1x2 s0 n0 l0 s1 n1 k\<lparr>rnd := r'\<rparr>"
  by (simp_all add: grid_1x2_def)

lemma agents_1x2_plain:
  "agents (grid_1x2 s0 n0 l0 s1 n1 k) ! 0 =
     \<lparr>row = 0, col = 0, state = s0, next_state = n0, is_cult_leader = l0\<rparr>"
  "agents (grid_1x2 s0 n0 l0 s1 n1 k) ! Suc 0 =
     \<lparr>row = 0, col = 1, state = s1, next_state = n1, is_cult_leader = False\<rparr>"
  "rnd (grid_1x2 s0 n0 l0 s1 n1 k) = rng0"
  by (simp_all add: grid_1x2_def)

lemma determine_opinion_1x2_first:
  "determine_opinion 0 (grid_1x2 s0 n0 l0 s1 n1 k) =
     Inr (grid_1x2 s0 s1 l0 s1 n1 k
            \<lparr>rnd := rng0\<lparr>global_pos := Suc (global_pos rng0), model_pos := Suc (model_pos rng0)\<rparr>\<rparr>)"
proof -
  have g: "global_draws rng0 = (\<lambda>_. 2 ^ 52)" by (simp add: rng0_def)
  have "determine_opinion 0 (grid_1x2 s0 n0 l0 s1 n1 k\<lparr>rnd := rng0\<rparr>) =
     Inr (grid_1x2 s0 s1 l0 s1 n1 k
            \<lparr>rnd := rng0\<lparr>global_pos := Suc (global_pos rng0), model_pos := Suc (model_pos rng0)\<rparr>\<rparr>)"
    unfolding determine_opinion_def agents_1x2
    by (simp add: next_opinion_1x2_0 [OF _ _ g] set_next_state_1x2)
  then show ?thesis by (simp only: grid_1x2_rnd)
qed

lemma calm_rng0: "calm_rng rng0"
  by (simp add: calm_rng_def rng0_def)

lemma reachable_step_1x2:
  assumes "reachable (grid_1x2 s0 n0 l0 s1 n1 k)"
  shows "reachable (if Suc k mod 100 = 0 then grid_1x2 (Some 16) s1 True s0 s0 (Suc k)
                    else grid_1x2 (if l0 then s0 else s1) s1 l0 s0 s0 (Suc k))"
proof -
  let ?g = "if Suc k mod 100 = 0 then grid_1x2 (Some 16) s1 True s0 s0 (Suc k)
            else grid_1x2 (if l0 then s0 else s1) s1 l0 s0 s0 (Suc k)"
  from step_1x2 [OF calm_rng0, of s0 n0 l0 s1 n1 k] obtain r' where
    "step (grid_1x2 s0 n0 l0 s1 n1 k\<lparr>rnd := rng0\<rparr>) = Inr (?g\<lparr>rnd := r'\<rparr>)"
    by blast
  then have "step (grid_1x2 s0 n0 l0 s1 n1 k) = Inr (?g\<lparr>rnd := r'\<rparr>)"
    by (simp only: grid_1x2_rnd)
  from reachable.stepped [OF assms this] have "reachable (?g\<lparr>rnd := r'\<rparr>)" .
  then have "reachable (?g\<lparr>rnd := r'\<rparr>\<lparr>rnd := rng0\<rparr>)" by (rule reachable.redrawn)
  moreover have "?g\<lparr>rnd := r'\<rparr>\<lparr>rnd := rng0\<rparr> = ?g" by (simp add: grid_1x2_rnd)
  ultimately show ?thesis by simp
qed

lemma init_1x2:
  "\<exists>r'. init 1 2 rng0 = Inr (grid_1x2 (Some 0) (Some 0) False (Some 0) (Some 0) 1\<lparr>rnd := r'\<rparr>)"
proof -
  have "calm_rng (rng0\<lparr>model_pos := 2\<rparr>)" by (simp add: calm_rng_def rng0_def)
  from step_1x2 [OF this, of "Some 0" None False "Some 0" None 0] populate_1x2 show ?thesis
    by (simp add: init_def)
qed

lemma reachable_1x2_1: "reachable (grid_1x2 (Some 0) (Some 0) False (Some 0) (Some 0) (Suc 0))"
proof -
  from init_1x2 obtain r' where
    "init 1 2 rng0 = Inr (grid_1x2 (Some 0) (Some 0) False (Some 0) (Some 0) 1\<lparr>rnd := r'\<rparr>)"
    by blast
  then have "reachable (grid_1x2 (Some 0) (Some 0) False (Some 0) (Some 0) 1\<lparr>rnd := r'\<rparr>)"
    by (rule reachable.built)
  then have "reachable (grid_1x2 (Some 0) (Some 0) False (Some 0) (Some 0) 1\<lparr>rnd := r'\<rparr>\<lparr>rnd := rng0\<rparr>)"
    by (rule reachable.redrawn)
  then show ?thesis by (simp add: grid_1x2_rnd)
qed

lemma reachable_1x2_early:
  "k < 99 \<Longrightarrow> reachable (grid_1x2 (Some 0) (Some 0) False (Some 0) (Some 0) (Suc k))"
proof (induction k)
  case 0
  show ?case by (rule reachable_1x2_1)
next
  case (Suc k)
  then have r: "reachable (grid_1x2 (Some 0) (Some 0) False (Some 0) (Some 0) (Suc k))" by simp
  have "Suc (Suc k) mod 100 \<noteq> 0" using Suc.prems by presburger
  with reachable_step_1x2 [OF r] show ?case by simp
qed

lemma reachable_1x2_100: "reachable (grid_1x2 (Some 16) (Some 0) True (Some 0) (Some 0) 100)"
proof -
  have "reachable (grid_1x2 (Some 0) (Some 0) False (Some 0) (Some 0) (Suc 98))"
    by (rule reachable_1x2_early) simp
  from reachable_step_1x2 [OF this] show ?thesis by simp
qed

lemma reachable_1x2_101: "reachable (grid_1x2 (Some 16) (Some 0) True (Some 16) (Some 16) 101)"
  using reachable_step_1x2 [OF reachable_1x2_100] by simp

lemma reachable_1x2_late:
  "k < 98 \<Longrightarrow> reachable (grid_1x2 (Some 16) (Some 16) True (Some 16) (Some 16) (102 + k))"
proof (induction k)
  case 0
  from reachable_step_1x2 [OF reachable_1x2_101] show ?case by simp
next
  case (Suc k)
  then have r: "reachable (grid_1x2 (Some 16) (Some 16) True (Some 16) (Some 16) (102 + k))" by simp
  have "Suc (102 + k) mod 100 \<noteq> 0" using Suc.prems by presburger
  with reachable_step_1x2 [OF r] show ?case by simp
qed

lemma reachable_1x2_199: "reachable (grid_1x2 (Some 16) (Some 16) True (Some 16) (Some 16) 199)"
  using reachable_1x2_late [of 97] by simp

lemma step_1x2_199:
  "\<exists>r'. step (grid_1x2 (Some 16) (Some 16) True (Some 16) (Some 16) 199) =
     Inr (grid_1x2 (Some 16) (Some 16) True (Some 16) (Some 16) 200\<lparr>rnd := r'\<rparr>)"
  using step_1x2 [OF calm_rng0, of "Some 16" "Some 16" True "Some 16" "Some 16" 199]
  by (simp add: grid_1x2_rnd)

lemma iter_neighbors_subset:
  "set (iter_neighbors m pos moore ic rad) \<subseteq> set (agents m)"
  using map_filter_grid_at_bound [of _ m] by (auto simp: iter_neighbors_def)

lemma foldl_scan_cultist_fst:
  "\<forall>c\<in>set xs. is_cult_leader c \<longrightarrow> state c = Some v \<Longrightarrow>
   fst (foldl (scan_cultist self) (a, d) xs) = (if \<exists>c\<in>set xs. is_cult_leader c then Some v else a)"
proof (induction xs arbitrary: a d)
  case Nil
  then show ?case by simp
next
  case (Cons x xs)
  then have ih: "\<And>a d. fst (foldl (scan_cultist self) (a, d) xs) =
                   (if \<exists>c\<in>set xs. is_cult_leader c then Some v else a)"
    by simp
  show ?case
  proof (cases "is_cult_leader x")
    case True
    then have "state x = Some v" using Cons.prems by simp
    then obtain d' where "scan_cultist self (a, d) x = (Some v, d')"
      using True by (simp add: scan_cultist_def Let_def)
    then show ?thesis using True by (simp add: ih)
  next
    case False
    then have "scan_cultist self (a, d) x = (a, d)" by (simp add: scan_cultist_def)
    then show ?thesis using False by (simp add: ih)
  qed
qed

lemma truthy_cultist_scan:
  assumes "leaders_max m"
  shows "fst (cultist_scan m self) =
           (if \<exists>c\<in>set (check_cultist_iter m self). is_cult_leader c then Some 16 else None)"
proof -
  have "\<forall>c\<in>set (check_cultist_iter m self). is_cult_leader c \<longrightarrow> state c = Some 16"
    using assms iter_neighbors_subset [of m "(row self, col self)" False False cultist_influence]
    by (auto simp: leaders_max_def last_OPINIONS check_cultist_iter_def)
  then show ?thesis unfolding cultist_scan_def by (rule foldl_scan_cultist_fst)
qed

lemma next_opinion_cases:
  assumes "cultist_scan m self = (a, d)"
  shows "next_opinion m self =
     (let r = rnd m; u = real (global_draws r (global_pos r) mod 2 ^ 53) / 2 ^ 53;
          r1 = r\<lparr>global_pos := Suc (global_pos r)\<rparr>
      in if truthy a \<and> u < leader_threshold d then Inr (a, r1)
         else (let ra = (if truthy a then r1 else r);
                   u2 = real (global_draws ra (global_pos ra) mod 2 ^ 53) / 2 ^ 53;
                   rb = ra\<lparr>global_pos := Suc (global_pos ra)\<rparr>;
                   xs = (if u2 < low_tie_threshold then low_tied_opinions m self else tied_opinions m self)
               in if xs = [] then Inl IndexError
                  else Inr (fst (xs ! (model_draws rb (model_pos rb) mod length xs)),
                            rb\<lparr>model_pos := Suc (model_pos rb)\<rparr>)))"
  by (simp add: next_opinion_def assms random_random_def choice_def randbelow_def Let_def)

lemma next_opinion_draws:
  assumes "next_opinion m self = Inr (v, r)"
  shows "global_pos (rnd m) < global_pos r"
proof -
  obtain a d where cs: "cultist_scan m self = (a, d)" by (cases "cultist_scan m self")
  show ?thesis
    using assms unfolding next_opinion_cases [OF cs] Let_def
    by (auto split: if_splits)
qed

subsection \<open>The grid and its neighbourhoods\<close>

lemma cell_index_bound: "x < w \<Longrightarrow> y < h \<Longrightarrow> x * h + y < w * (h::nat)"
proof -
  assume x: "x < w" and y: "y < h"
  have "x * h + y < x * h + h" using y by simp
  also have "\<dots> = Suc x * h" by simp
  also have "\<dots> \<le> w * h" using x by (intro mult_le_mono1) simp
  finally show ?thesis .
qed

lemma grid_ok_length: "grid_ok m \<Longrightarrow> length (agents m) = width m * height m"
proof -
  assume "grid_ok m"
  then have "length (map (\<lambda>c. (row c, col c)) (agents m)) = length (coord_iter m)"
    by (simp add: grid_ok_def)
  then show ?thesis by (simp add: coord_iter_def)
qed

lemma grid_ok_nth:
  assumes "grid_ok m" "i < length (agents m)"
  shows "row (agents m ! i) = i div height m" "col (agents m ! i) = i mod height m"
    "i div height m < width m" "i mod height m < height m"
proof -
  have l: "i < width m * height m" using assms grid_ok_length by simp
  then have h: "0 < height m" by (cases "height m") simp_all
  have "map (\<lambda>c. (row c, col c)) (agents m) ! i = coord_iter m ! i"
    using assms(1) by (simp add: grid_ok_def)
  then have "(row (agents m ! i), col (agents m ! i)) =
      List.product [0..<width m] [0..<height m] ! i"
    using assms(2) by (simp add: coord_iter_def)
  also have "\<dots> = ([0..<width m] ! (i div height m), [0..<height m] ! (i mod height m))"
    using l by (simp add: List.product_nth)
  finally have e: "(row (agents m ! i), col (agents m ! i)) =
      ([0..<width m] ! (i div height m), [0..<height m] ! (i mod height m))" .
  show d: "i div height m < width m" using l h by (simp add: less_mult_imp_div_less)
  show md: "i mod height m < height m" using h by simp
  show "row (agents m ! i) = i div height m" "col (agents m ! i) = i mod height m"
    using e d md by simp_all
qed

lemma grid_ok_at:
  assumes "grid_ok m" "x < width m" "y < height m"
  shows "grid_at m (x, y) = Some (x * height m + y)"
    and "row (agents m ! (x * height m + y)) = x"
    and "col (agents m ! (x * height m + y)) = y"
proof -
  have b: "x * height m + y < length (agents m)"
    using assms cell_index_bound grid_ok_length by simp
  show "grid_at m (x, y) = Some (x * height m + y)" using b by (simp add: grid_at_def)
  show "row (agents m ! (x * height m + y)) = x" "col (agents m ! (x * height m + y)) = y"
    using grid_ok_nth(1,2) [OF assms(1) b] assms(3) by simp_all
qed

lemma grid_ok_snapshot:
  assumes "snapshot m1 = snapshot m2" shows "grid_ok m1 = grid_ok m2"
proof -
  have "map visible (agents m1) = map visible (agents m2)" "width m1 = width m2"
    "height m1 = height m2"
    using assms by (simp_all add: snapshot_def)
  then have "map (\<lambda>c. (row c, col c)) (agents m1) = map (\<lambda>c. (row c, col c)) (agents m2)"
    "coord_iter m1 = coord_iter m2"
  proof -
    assume v: "map visible (agents m1) = map visible (agents m2)"
    have "map ((\<lambda>v. (fst v, fst (snd v))) \<circ> visible) (agents m1) =
          map ((\<lambda>v. (fst v, fst (snd v))) \<circ> visible) (agents m2)"
      unfolding map_map [symmetric] v ..
    then show "map (\<lambda>c. (row c, col c)) (agents m1) = map (\<lambda>c. (row c, col c)) (agents m2)"
      by (simp add: visible_def comp_def)
  next
    assume "width m1 = width m2" "height m1 = height m2"
    then show "coord_iter m1 = coord_iter m2" by (simp add: coord_iter_def)
  qed
  then show ?thesis by (simp add: grid_ok_def)
qed

lemma set_get_neighborhood:
  "set (get_neighborhood m (x, y) moore ic rad) =
     {(nx, ny). x - rad \<le> nx \<and> nx < width m \<and> nx \<le> x + rad \<and>
                y - rad \<le> ny \<and> ny < height m \<and> ny \<le> y + rad \<and>
                (moore \<or> \<bar>int nx - int x\<bar> + \<bar>int ny - int y\<bar> \<le> int rad) \<and>
                (ic \<or> (nx, ny) \<noteq> (x, y))}"
  by (auto simp: get_neighborhood_def Let_def)

lemma map_filter_nonempty:
  "p \<in> set ps \<Longrightarrow> f p = Some v \<Longrightarrow> List.map_filter f ps \<noteq> []"
  by (induction ps) (auto simp: List.map_filter_def)

lemma neighbor_iter_nonempty:
  assumes "grid_ok m" "i < length (agents m)" "2 \<le> length (agents m)"
  shows "neighbor_iter m (agents m ! i) \<noteq> []"
proof -
  let ?h = "height m" and ?w = "width m"
  let ?x = "i div ?h" and ?y = "i mod ?h"
  note n = grid_ok_nth [OF assms(1,2)]
  have wh: "2 \<le> ?w * ?h" using assms(1,3) grid_ok_length by simp
  define p where "p = (if 2 \<le> ?h then (?x, if ?y + 1 < ?h then ?y + 1 else ?y - 1)
                       else (if ?x + 1 < ?w then ?x + 1 else ?x - 1, ?y))"
  have w2: "2 \<le> ?w" if "\<not> 2 \<le> ?h"
  proof -
    from that n(4) have "?h = 1" by simp
    with wh show ?thesis by simp
  qed
  have less: "?x - 1 < ?w" "?y - 1 < ?h" using n(3,4) by arith+
  have inb: "fst p < ?w" "snd p < ?h" using n(3,4) w2 less by (auto simp: p_def)
  have near: "?x - 1 \<le> fst p" "fst p \<le> ?x + 1" "?y - 1 \<le> snd p" "snd p \<le> ?y + 1"
    by (auto simp: p_def)
  have ne: "p \<noteq> (?x, ?y)" using n(3,4) w2 by (auto simp: p_def)
  have "(fst p, snd p) \<in> set (get_neighborhood m (?x, ?y) True False 1)"
    unfolding set_get_neighborhood using inb near ne by (cases p) simp
  then have mem: "p \<in> set (get_neighborhood m (?x, ?y) True False 1)" by simp
  have at: "grid_at m p = Some (fst p * ?h + snd p)"
    using grid_ok_at(1) [OF assms(1) inb] by simp
  have "List.map_filter (grid_at m) (get_neighborhood m (?x, ?y) True False 1) \<noteq> []"
    using mem at by (rule map_filter_nonempty)
  then show ?thesis by (simp add: neighbor_iter_def iter_neighbors_def n(1,2))
qed

subsection \<open>The tally is never empty on a grid of two cells or more\<close>

lemma counter_add_nonempty: "counter_add k kcs \<noteq> []"
  by (cases kcs) (auto split: if_splits)

lemma foldl_counter_add_nonempty:
  "acc \<noteq> [] \<or> xs \<noteq> [] \<Longrightarrow> foldl (\<lambda>kcs k. counter_add k kcs) acc xs \<noteq> []"
  by (induction xs arbitrary: acc) (auto simp: counter_add_nonempty)

lemma Counter_nonempty: "xs \<noteq> [] \<Longrightarrow> Counter xs \<noteq> []"
  by (simp add: Counter_def foldl_counter_add_nonempty)

lemma most_common_nonempty: "kcs \<noteq> [] \<Longrightarrow> most_common kcs \<noteq> []"
proof -
  assume "kcs \<noteq> []"
  then have "length (most_common kcs) \<noteq> 0" by (simp add: most_common_def)
  then show ?thesis by (simp del: length_0_conv)
qed

lemma tied_nonempty:
  assumes "neighbor_iter m self \<noteq> []"
  shows "tied_opinions m self \<noteq> []" "low_tied_opinions m self \<noteq> []"
proof -
  have p: "polled_opinions m self \<noteq> []"
    using assms by (simp add: polled_opinions_def neighbors_opinion_def most_common_nonempty
        Counter_nonempty)
  then have "hd (polled_opinions m self) \<in> set (polled_opinions m self)"
    "last (polled_opinions m self) \<in> set (polled_opinions m self)"
    by simp_all
  then have "hd (polled_opinions m self) \<in> set (tied_opinions m self)"
    "last (polled_opinions m self) \<in> set (low_tied_opinions m self)"
    by (simp_all add: tied_opinions_def low_tied_opinions_def)
  then show "tied_opinions m self \<noteq> []" "low_tied_opinions m self \<noteq> []" by auto
qed

lemma next_opinion_total:
  assumes "neighbor_iter m self \<noteq> []"
  shows "\<exists>v r. next_opinion m self = Inr (v, r)"
proof -
  obtain a d where cs: "cultist_scan m self = (a, d)" by (cases "cultist_scan m self")
  show ?thesis
    unfolding next_opinion_cases [OF cs] Let_def
    using tied_nonempty [OF assms] by simp
qed


lemma next_opinion_raises:
  assumes "neighbor_iter m self = []" "\<not> truthy (fst (cultist_scan m self))"
  shows "next_opinion m self = Inl IndexError"
proof -
  have t: "tied_opinions m self = []" "low_tied_opinions m self = []"
    using assms(1) by (simp_all add: tied_opinions_def low_tied_opinions_def polled_opinions_def
        neighbors_opinion_def Counter_def most_common_def)
  obtain a d where cs: "cultist_scan m self = (a, d)" by (cases "cultist_scan m self")
  show ?thesis
    unfolding next_opinion_cases [OF cs] Let_def
    using assms(2) by (simp add: t cs)
qed

subsection \<open>When a step returns\<close>

lemma grid_ok_cong:
  assumes "length (agents m1) = length (agents m2)" "width m1 = width m2" "height m1 = height m2"
    and "\<And>j. j < length (agents m2) \<Longrightarrow>
           row (agents m1 ! j) = row (agents m2 ! j) \<and> col (agents m1 ! j) = col (agents m2 ! j)"
  shows "grid_ok m1 = grid_ok m2"
proof -
  have "map (\<lambda>c. (row c, col c)) (agents m1) = map (\<lambda>c. (row c, col c)) (agents m2)"
    using assms(1,4) by (intro nth_equalityI) simp_all
  then show ?thesis using assms(2,3) by (simp add: grid_ok_def coord_iter_def)
qed

lemma grid_ok_populate:
  assumes "populate w h r = Inr m" shows "grid_ok m"
proof -
  note c = populate_cells [OF assms]
  have "map (\<lambda>c. (row c, col c)) (agents m) = List.product [0..<w] [0..<h]"
    using c(4,6) by (intro nth_equalityI) (simp_all add: ColorCell_def)
  then show ?thesis using c(1,2) by (simp add: grid_ok_def coord_iter_def)
qed

lemma determine_opinion_total:
  assumes "grid_ok m" "2 \<le> length (agents m)" "i < length (agents m)"
  shows "\<exists>v r. next_opinion m (agents m ! i) = Inr (v, r) \<and>
               determine_opinion i m = Inr (set_next_state i v r m)"
proof -
  from next_opinion_total [OF neighbor_iter_nonempty [OF assms(1,3,2)]]
  obtain v r where "next_opinion m (agents m ! i) = Inr (v, r)" by blast
  then show ?thesis by (simp add: determine_opinion_def)
qed

lemma do_determine_opinion_total:
  assumes "grid_ok m" "2 \<le> length (agents m)" "\<forall>i\<in>set is. i < length (agents m)"
  shows "\<exists>m'. do_determine_opinion is m = Inr m'"
  using assms
proof (induction "is" arbitrary: m)
  case Nil
  then show ?case by simp
next
  case (Cons i "is")
  from Cons.prems have i: "i < length (agents m)" by simp
  from determine_opinion_total [OF Cons.prems(1,2) i] obtain v r where
    d: "determine_opinion i m = Inr (set_next_state i v r m)"
    by blast
  let ?m1 = "set_next_state i v r m"
  have s: "snapshot ?m1 = snapshot m" by simp
  have 1: "grid_ok ?m1" using Cons.prems(1) grid_ok_snapshot [OF s] by simp
  have l: "length (agents ?m1) = length (agents m)" by (rule snapshot_length [OF s])
  have 2: "2 \<le> length (agents ?m1)" "\<forall>i\<in>set is. i < length (agents ?m1)"
    using Cons.prems(2,3) l by simp_all
  from Cons.IH [OF 1 2] show ?case by (simp add: d)
qed

lemma determine_phase_total:
  assumes "grid_ok m" "2 \<le> length (agents m)"
  shows "\<exists>m'. determine_phase m = Inr m'"
  unfolding determine_phase_def
  by (rule do_determine_opinion_total [OF assms]) simp

lemma manipulate_random_cell_total:
  assumes "grid_ok m" "0 < length (agents m)"
  shows "\<exists>m'. manipulate_random_cell m = Inr m'"
proof -
  have l: "length (coord_iter m) = length (agents m)"
    using assms(1) grid_ok_length by (simp add: coord_iter_def)
  then have ne: "coord_iter m \<noteq> []" using assms(2) by auto
  let ?k = "model_draws (rnd m) (model_pos (rnd m)) mod length (coord_iter m)"
  let ?p = "coord_iter m ! ?k"
  have k: "?k < length (coord_iter m)" using l assms(2) by simp
  then have "?p \<in> set (coord_iter m)" by (rule nth_mem)
  then have "fst ?p < width m" "snd ?p < height m"
    by (auto simp: coord_iter_def)
  from grid_ok_at(1) [OF assms(1) this] have "grid_at m ?p = Some (fst ?p * height m + snd ?p)"
    by simp
  then have "get_cell_list_contents m [?p] = [fst ?p * height m + snd ?p]"
    by (simp add: get_cell_list_contents_def List.map_filter_def)
  then show ?thesis
    using ne by (simp add: manipulate_random_cell_def choice_def randbelow_def)
qed

lemma finish_step_total:
  assumes "grid_ok m" "0 < length (agents m)"
  shows "\<exists>m'. finish_step m = Inr m'"
proof -
  let ?m = "m\<lparr>steps := steps m + 1\<rparr>"
  have "grid_ok ?m" "0 < length (agents ?m)"
    using assms by (simp_all add: grid_ok_def coord_iter_def)
  from manipulate_random_cell_total [OF this] show ?thesis
    by (simp add: finish_step_def Let_def)
qed

lemma grid_ok_assume_phase:
  "grid_ok (assume_phase m) = grid_ok m" "length (agents (assume_phase m)) = length (agents m)"
proof -
  note c = do_assume_opinion_cells [of "[0..<length (agents m)]" m]
  show "length (agents (assume_phase m)) = length (agents m)"
    using c [of 0] by (simp add: assume_phase_def)
  show "grid_ok (assume_phase m) = grid_ok m"
    by (rule grid_ok_cong) (use c in \<open>simp_all add: assume_phase_def\<close>)
qed

lemma step_total:
  assumes "grid_ok m" "2 \<le> length (agents m)"
  shows "\<exists>m'. step m = Inr m'"
proof -
  from determine_phase_total [OF assms] obtain m1 where d: "determine_phase m = Inr m1" by blast
  then have s: "snapshot m1 = snapshot m"
    unfolding determine_phase_def by (rule do_determine_opinion_snapshot)
  have "grid_ok m1" "length (agents m1) = length (agents m)"
    using assms(1) grid_ok_snapshot [OF s] snapshot_length [OF s] by simp_all
  moreover have "0 < length (agents m)" using assms(2) by linarith
  ultimately have "grid_ok (assume_phase m1)" "0 < length (agents (assume_phase m1))"
    by (simp_all add: grid_ok_assume_phase)
  from finish_step_total [OF this] show ?thesis by (simp add: step_def d)
qed

lemma grid_ok_step:
  assumes "grid_ok m" "step m = Inr m'"
  shows "grid_ok m'" "length (agents m') = length (agents m)" "width m' = width m"
    "height m' = height m" "steps m' = Suc (steps m)"
proof -
  from assms(2) obtain m1 where s: "snapshot m1 = snapshot m"
    and f: "finish_step (assume_phase m1) = Inr m'"
    by (rule step_phases)
  have 1: "grid_ok m1" "length (agents m1) = length (agents m)" "width m1 = width m"
    "height m1 = height m"
    using assms(1) grid_ok_snapshot [OF s] snapshot_length [OF s] s
    by (simp_all add: snapshot_def)
  have d: "do_determine_opinion [0..<length (agents m)] m = Inr m1"
    if "determine_phase m = Inr m1" using that by (simp add: determine_phase_def)
  note c = do_assume_opinion_cells [of "[0..<length (agents m1)]" m1]
  have 2: "grid_ok (assume_phase m1)" "length (agents (assume_phase m1)) = length (agents m)"
    "width (assume_phase m1) = width m" "height (assume_phase m1) = height m"
    using 1 c [of 0] by (simp_all add: grid_ok_assume_phase) (simp_all add: assume_phase_def)
  note fc = finish_step_cells [OF f]
  show "length (agents m') = length (agents m)" "width m' = width m" "height m' = height m"
    using fc(1,2,3) 2 by simp_all
  have "grid_ok m' = grid_ok (assume_phase m1)"
    by (rule grid_ok_cong) (use fc in simp_all)
  then show "grid_ok m'" using 2 by simp
  from assms(2) obtain m1' where "determine_phase m = Inr m1'"
    "finish_step (assume_phase m1') = Inr m'"
    by (auto simp: step_def split: sum.splits)
  then have "steps m' = Suc (steps (assume_phase m1'))" "steps m1' = steps m"
    using finish_step_cells(4) do_determine_opinion_pre [of "[0..<length (agents m)]" m m1' m]
    by (simp_all add: determine_phase_def)
  then show "steps m' = Suc (steps m)"
    using do_assume_opinion_cells [of "[0..<length (agents m1')]" m1' 0]
    by (simp add: assume_phase_def)
qed


lemma init_total:
  assumes "2 \<le> w * h"
  shows "\<exists>m0 m. populate w h r = Inr m0 \<and> init w h r = Inr m"
proof -
  from populate_total obtain m0 where p: "populate w h r = Inr m0" by blast
  have "grid_ok m0" "2 \<le> length (agents m0)"
    using grid_ok_populate [OF p] populate_cells(4) [OF p] assms by simp_all
  from step_total [OF this] show ?thesis by (simp add: init_def p)
qed

lemma single_cell_raises:
  assumes "grid_ok m" "length (agents m) = 1"
  shows "neighbor_iter m (agents m ! 0) = []" "determine_opinion 0 m = Inl IndexError"
    "step m = Inl IndexError"
proof -
  have wh: "width m * height m = 1" using assms grid_ok_length by simp
  then have w: "width m = 1" and h: "height m = 1" by simp_all
  have rc: "row (agents m ! 0) = 0" "col (agents m ! 0) = 0"
    using grid_ok_nth(1,2) [OF assms(1), of 0] assms(2) h by simp_all
  have e: "get_neighborhood m (0, 0) moore False rad = []" for moore rad
  proof -
    have "set (get_neighborhood m (0, 0) moore False rad) = {}"
      unfolding set_get_neighborhood using w h by auto
    then show ?thesis by simp
  qed
  show n: "neighbor_iter m (agents m ! 0) = []"
    by (simp add: neighbor_iter_def iter_neighbors_def rc e List.map_filter_def)
  have "check_cultist_iter m (agents m ! 0) = []"
    by (simp add: check_cultist_iter_def iter_neighbors_def rc e List.map_filter_def)
  then have "\<not> truthy (fst (cultist_scan m (agents m ! 0)))"
    by (simp add: cultist_scan_def truthy_def)
  from next_opinion_raises [OF n this] show d: "determine_opinion 0 m = Inl IndexError"
    by (simp add: determine_opinion_def)
  show "step m = Inl IndexError"
    by (simp add: step_def determine_phase_def assms(2) d)
qed

lemma init_1x1: "init 1 1 r = Inl IndexError"
proof -
  from populate_total obtain m0 where p: "populate 1 1 r = Inr m0" by blast
  have "grid_ok m0" "length (agents m0) = 1"
    using grid_ok_populate [OF p] populate_cells(4) [OF p] by simp_all
  from single_cell_raises(3) [OF this] show ?thesis using p by (simp add: init_def)
qed

subsection \<open>The turn of one cell in the determine phase\<close>

lemma do_determine_opinion_append:
  "do_determine_opinion (xs @ ys) m =
     (case do_determine_opinion xs m of Inl e \<Rightarrow> Inl e | Inr m1 \<Rightarrow> do_determine_opinion ys m1)"
  by (induction xs arbitrary: m) (auto split: sum.splits)

lemma upt_split_at: "i < n \<Longrightarrow> [0..<n] = [0..<i] @ i # [Suc i..<n]"
  using upt_add_eq_append [of 0 i "n - i"] by (simp add: upt_conv_Cons)

lemma determine_phase_turn:
  assumes "determine_phase m = Inr m'" "i < length (agents m)"
  shows "\<exists>mi r'. do_determine_opinion [0..<i] m = Inr mi \<and> snapshot mi = snapshot m \<and>
           next_opinion (m\<lparr>rnd := rnd mi\<rparr>) (agents m ! i) = Inr (next_state (agents m' ! i), r') \<and>
           determine_opinion i mi = Inr (set_next_state i (next_state (agents m' ! i)) r' mi) \<and>
           do_determine_opinion [0..<Suc i] m =
             Inr (set_next_state i (next_state (agents m' ! i)) r' mi)"
proof -
  let ?n = "length (agents m)"
  have sp: "[0..<?n] = [0..<i] @ i # [Suc i..<?n]" by (rule upt_split_at [OF assms(2)])
  from assms(1) have "do_determine_opinion ([0..<i] @ i # [Suc i..<?n]) m = Inr m'"
    unfolding determine_phase_def using sp by simp
  then obtain mi where a: "do_determine_opinion [0..<i] m = Inr mi"
    and b: "do_determine_opinion (i # [Suc i..<?n]) mi = Inr m'"
    unfolding do_determine_opinion_append by (auto split: sum.splits)
  from b obtain mi' where d: "determine_opinion i mi = Inr mi'"
    and c: "do_determine_opinion [Suc i..<?n] mi' = Inr m'"
    by (auto split: sum.splits)
  have s: "snapshot mi = snapshot m" by (rule do_determine_opinion_snapshot [OF a])
  have li: "i < length (agents mi)" using assms(2) snapshot_length [OF s] by simp
  from determine_opinion_result [OF d] obtain v r' where
    n: "next_opinion mi (agents mi ! i) = Inr (v, r')" and mi': "mi' = set_next_state i v r' mi"
    by blast
  have vis: "visible (agents mi ! i) = visible (agents m ! i)" by (rule snapshot_nth [OF s li])
  have "next_opinion mi (agents mi ! i) = next_opinion (m\<lparr>rnd := rnd mi\<rparr>) (agents m ! i)"
    by (rule next_opinion_snapshot) (use s vis in \<open>simp_all add: visible_def\<close>)
  with n have n': "next_opinion (m\<lparr>rnd := rnd mi\<rparr>) (agents m ! i) = Inr (v, r')" by simp
  have "next_state (agents m' ! i) = next_state (agents mi' ! i)"
    using do_determine_opinion_pre [OF c refl] by simp
  also have "\<dots> = v" using li by (simp add: mi' next_state_set_next_state)
  finally have v: "next_state (agents m' ! i) = v" .
  have e: "do_determine_opinion [0..<Suc i] m = Inr mi'"
    using do_determine_opinion_append [of "[0..<i]" "[i]" m] a d by simp
  from a s n' d e show ?thesis unfolding v mi' by blast
qed

lemma set_next_state_frame:
  "j \<noteq> i \<Longrightarrow> agents (set_next_state i v r m) ! j = agents m ! j"
  "visible (agents (set_next_state i v r m) ! j) = visible (agents m ! j)"
  by (cases "i < length (agents m)"; cases "j = i";
      simp add: set_next_state_agents list_update_beyond)+


lemma step_flags_without_perturbation:
  assumes "step m = Inr m'" "Suc (steps m) mod 100 \<noteq> 0" "i < length (agents m)"
  shows "is_cult_leader (agents m' ! i) = is_cult_leader (agents m ! i)"
proof -
  from assms(1) obtain m1 where d: "determine_phase m = Inr m1"
    and f: "finish_step (assume_phase m1) = Inr m'"
    by (auto simp: step_def split: sum.splits)
  have run: "do_determine_opinion [0..<length (agents m)] m = Inr m1"
    using d by (simp add: determine_phase_def)
  have s: "snapshot m1 = snapshot m" by (rule do_determine_opinion_snapshot [OF run])
  have st: "steps m1 = steps m" using do_determine_opinion_pre [OF run refl] by simp
  note c = do_assume_opinion_cells [of "[0..<length (agents m1)]" m1 i]
  have "steps (assume_phase m1) = steps m" using c st by (simp add: assume_phase_def)
  then have "m' = (assume_phase m1)\<lparr>steps := Suc (steps m)\<rparr>"
    using f assms(2) by (simp add: finish_step_def Let_def)
  then have 1: "is_cult_leader (agents m' ! i) = is_cult_leader (agents m1 ! i)"
    using c by (simp add: assume_phase_def)
  have "i < length (agents m1)" using assms(3) snapshot_length [OF s] by simp
  from snapshot_nth [OF s this] have 2: "is_cult_leader (agents m1 ! i) = is_cult_leader (agents m ! i)"
    by (simp add: visible_def)
  from 1 2 show ?thesis by simp
qed

lemma first_step_no_leader:
  assumes "step m = Inr m'" "steps m = 0" "i < length (agents m)"
  shows "is_cult_leader (agents m' ! i) = is_cult_leader (agents m ! i)"
  by (rule step_flags_without_perturbation [OF assms(1) _ assms(3)]) (simp add: assms(2))

subsection \<open>The commit phase\<close>

lemma fold_assume_opinion_nth:
  assumes "distinct is" "j < length (agents m)"
  shows "agents (fold assume_opinion is m) ! j =
           (if j \<in> set is \<and> \<not> is_cult_leader (agents m ! j)
            then (agents m ! j)\<lparr>state := next_state (agents m ! j)\<rparr> else agents m ! j)"
  using assms
proof (induction "is" arbitrary: m)
  case Nil
  then show ?case by simp
next
  case (Cons i "is")
  let ?m1 = "assume_opinion i m"
  have l: "length (agents ?m1) = length (agents m)" by (rule assume_opinion_cells(1))
  have d: "distinct is" and ni: "i \<notin> set is" using Cons.prems(1) by simp_all
  have j1: "j < length (agents ?m1)" using Cons.prems(2) l by simp
  note ih = Cons.IH [OF d j1]
  have one: "agents ?m1 ! j =
      (if j = i \<and> \<not> is_cult_leader (agents m ! j)
       then (agents m ! j)\<lparr>state := next_state (agents m ! j)\<rparr> else agents m ! j)"
    using Cons.prems(2) by (auto simp: assume_opinion_def Let_def)
  show ?case
  proof (cases "j = i")
    case True
    then have "j \<notin> set is" using ni by simp
    then show ?thesis using ih one True by simp
  next
    case False
    then show ?thesis using ih one by simp
  qed
qed

lemma assume_phase_nth:
  assumes "j < length (agents m)"
  shows "agents (assume_phase m) ! j =
           (if is_cult_leader (agents m ! j) then agents m ! j
            else (agents m ! j)\<lparr>state := next_state (agents m ! j)\<rparr>)"
  using fold_assume_opinion_nth [of "[0..<length (agents m)]" j m] assms
  by (simp add: assume_phase_def do_assume_opinion_def)

lemma step_state:
  assumes "step m = Inr m'" "i < length (agents m)" "\<not> is_cult_leader (agents m ! i)"
    "Suc (steps m) mod 100 \<noteq> 0"
  shows "\<exists>mi r'. do_determine_opinion [0..<i] m = Inr mi \<and> snapshot mi = snapshot m \<and>
           next_opinion (m\<lparr>rnd := rnd mi\<rparr>) (agents m ! i) = Inr (state (agents m' ! i), r')"
proof -
  from assms(1) obtain m1 where d: "determine_phase m = Inr m1"
    and f: "finish_step (assume_phase m1) = Inr m'"
    by (auto simp: step_def split: sum.splits)
  have run: "do_determine_opinion [0..<length (agents m)] m = Inr m1"
    using d by (simp add: determine_phase_def)
  have s: "snapshot m1 = snapshot m" by (rule do_determine_opinion_snapshot [OF run])
  have st: "steps m1 = steps m" using do_determine_opinion_pre [OF run refl] by simp
  have i1: "i < length (agents m1)" using assms(2) snapshot_length [OF s] by simp
  have nl: "\<not> is_cult_leader (agents m1 ! i)"
    using snapshot_nth [OF s i1] assms(3) by (simp add: visible_def)
  have "steps (assume_phase m1) = steps m"
    using do_assume_opinion_cells [of "[0..<length (agents m1)]" m1 i] st
    by (simp add: assume_phase_def)
  then have "m' = (assume_phase m1)\<lparr>steps := Suc (steps m)\<rparr>"
    using f assms(4) by (simp add: finish_step_def Let_def)
  then have "state (agents m' ! i) = next_state (agents m1 ! i)"
    using assume_phase_nth [OF i1] nl by simp
  with determine_phase_turn [OF d assms(2)] show ?thesis by auto
qed

subsection \<open>The generators are read, never rewound\<close>

lemma next_opinion_keeps_draws:
  assumes "next_opinion m self = Inr (v, r)"
  shows "global_draws r = global_draws (rnd m)" "model_draws r = model_draws (rnd m)"
proof -
  obtain a d where cs: "cultist_scan m self = (a, d)" by (cases "cultist_scan m self")
  show "global_draws r = global_draws (rnd m)" "model_draws r = model_draws (rnd m)"
    using assms unfolding next_opinion_cases [OF cs] Let_def
    by (auto split: if_splits)
qed

lemma do_determine_opinion_keeps_draws:
  "do_determine_opinion is m = Inr m' \<Longrightarrow>
     global_draws (rnd m') = global_draws (rnd m) \<and> model_draws (rnd m') = model_draws (rnd m)"
proof (induction "is" arbitrary: m)
  case Nil
  then show ?case by simp
next
  case (Cons i "is")
  from Cons.prems obtain m1 where d: "determine_opinion i m = Inr m1"
    and rest: "do_determine_opinion is m1 = Inr m'"
    by (auto split: sum.splits)
  from determine_opinion_result [OF d] obtain v r where
    n: "next_opinion m (agents m ! i) = Inr (v, r)" and m1: "m1 = set_next_state i v r m"
    by blast
  have "global_draws (rnd m1) = global_draws (rnd m)" "model_draws (rnd m1) = model_draws (rnd m)"
    using next_opinion_keeps_draws [OF n] by (simp_all add: m1 set_next_state_agents)
  with Cons.IH [OF rest] show ?case by simp
qed

subsection \<open>Evaluation on the grid of two columns and two rows\<close>

lemma populate_2x2:
  "populate 2 2 rng_a = Inr (grid_2x2 (rng_a\<lparr>model_pos := 4\<rparr>))"
  "populate 2 2 rng_b = Inr (grid_2x2 (rng_b\<lparr>model_pos := 4\<rparr>))"
  by (simp_all add: populate_def upt_0_2 randrange_16 OPINIONS_def
      grid_2x2_def rng_a_def rng_b_def)

lemma grid_2x2_rnd: "grid_2x2 r\<lparr>rnd := r'\<rparr> = grid_2x2 r'"
  by (simp add: grid_2x2_def)

lemma grid_2x2_ok: "grid_ok (grid_2x2 r)"
  by (simp add: grid_ok_def coord_iter_def grid_2x2_def ColorCell_def upt_0_2)

lemma nbh_2x2:
  "get_neighborhood (grid_2x2 r) (0, 0) True False (Suc 0) = [(0, Suc 0), (Suc 0, 0), (Suc 0, Suc 0)]"
  "get_neighborhood (grid_2x2 r) (0, Suc 0) True False (Suc 0) = [(0, 0), (Suc 0, 0), (Suc 0, Suc 0)]"
  "get_neighborhood (grid_2x2 r) (Suc 0, 0) True False (Suc 0) = [(0, 0), (0, Suc 0), (Suc 0, Suc 0)]"
  "get_neighborhood (grid_2x2 r) (Suc 0, Suc 0) True False (Suc 0) = [(0, 0), (0, Suc 0), (Suc 0, 0)]"
  by (simp_all add: get_neighborhood_def grid_2x2_def upt_0_2)

lemma neighbor_states_2x2:
  "map state (neighbor_iter (grid_2x2 r) (agents (grid_2x2 r) ! 0)) = [Some 0, Some 0, Some 1]"
  "map state (neighbor_iter (grid_2x2 r) (agents (grid_2x2 r) ! Suc 0)) = [Some 0, Some 0, Some 1]"
  "map state (neighbor_iter (grid_2x2 r) (agents (grid_2x2 r) ! 2)) = [Some 0, Some 0, Some 1]"
  "map state (neighbor_iter (grid_2x2 r) (agents (grid_2x2 r) ! 3)) = [Some 0, Some 0, Some 0]"
proof -
  have a: "agents (grid_2x2 r) ! 0 = ColorCell (0, 0) (Some 0)"
    "agents (grid_2x2 r) ! Suc 0 = ColorCell (0, Suc 0) (Some 0)"
    "agents (grid_2x2 r) ! 2 = ColorCell (Suc 0, 0) (Some 0)"
    "agents (grid_2x2 r) ! 3 = ColorCell (Suc 0, Suc 0) (Some 1)"
    by (simp_all add: grid_2x2_def numeral_2_eq_2 numeral_3_eq_3)
  have g: "grid_at (grid_2x2 r) (0, 0) = Some 0" "grid_at (grid_2x2 r) (0, Suc 0) = Some (Suc 0)"
    "grid_at (grid_2x2 r) (Suc 0, 0) = Some 2" "grid_at (grid_2x2 r) (Suc 0, Suc 0) = Some 3"
    by (simp_all add: grid_at_def grid_2x2_def)
  show "map state (neighbor_iter (grid_2x2 r) (agents (grid_2x2 r) ! 0)) = [Some 0, Some 0, Some 1]"
    "map state (neighbor_iter (grid_2x2 r) (agents (grid_2x2 r) ! Suc 0)) = [Some 0, Some 0, Some 1]"
    "map state (neighbor_iter (grid_2x2 r) (agents (grid_2x2 r) ! 2)) = [Some 0, Some 0, Some 1]"
    "map state (neighbor_iter (grid_2x2 r) (agents (grid_2x2 r) ! 3)) = [Some 0, Some 0, Some 0]"
    unfolding a neighbor_iter_def iter_neighbors_def
    by (simp_all add: ColorCell_def nbh_2x2 List.map_filter_def g a)
qed

lemma polled_2x2:
  "most_common (Counter [Some 0, Some 0, Some (1::int)]) = [(Some 0, 2), (Some 1, 1)]"
  "most_common (Counter [Some 0, Some 0, Some (0::int)]) = [(Some 0, 3)]"
  by (simp_all add: Counter_def most_common_def)

lemma tied_2x2:
  assumes "i < 3"
  shows "tied_opinions (grid_2x2 r) (agents (grid_2x2 r) ! i) = [(Some 0, 2)]"
    and "low_tied_opinions (grid_2x2 r) (agents (grid_2x2 r) ! i) = [(Some 1, 1)]"
    and "tied_opinions (grid_2x2 r) (agents (grid_2x2 r) ! 3) = [(Some 0, 3)]"
    and "low_tied_opinions (grid_2x2 r) (agents (grid_2x2 r) ! 3) = [(Some 0, 3)]"
proof -
  from assms consider "i = 0" | "i = Suc 0" | "i = 2" by linarith
  then have "map state (neighbor_iter (grid_2x2 r) (agents (grid_2x2 r) ! i)) =
      [Some 0, Some 0, Some 1]"
    by cases (simp_all add: neighbor_states_2x2)
  then show "tied_opinions (grid_2x2 r) (agents (grid_2x2 r) ! i) = [(Some 0, 2)]"
    "low_tied_opinions (grid_2x2 r) (agents (grid_2x2 r) ! i) = [(Some 1, 1)]"
    by (simp_all add: tied_opinions_def low_tied_opinions_def polled_opinions_def
        neighbors_opinion_def polled_2x2)
  show "tied_opinions (grid_2x2 r) (agents (grid_2x2 r) ! 3) = [(Some 0, 3)]"
    "low_tied_opinions (grid_2x2 r) (agents (grid_2x2 r) ! 3) = [(Some 0, 3)]"
    by (simp_all add: tied_opinions_def low_tied_opinions_def polled_opinions_def
        neighbors_opinion_def polled_2x2 neighbor_states_2x2)
qed

lemma no_leader_2x2: "fst (cultist_scan (grid_2x2 r) self) = None"
proof -
  have "leaders_max (grid_2x2 r)" by (simp add: leaders_max_def grid_2x2_def ColorCell_def)
  moreover have "\<not> (\<exists>c\<in>set (check_cultist_iter (grid_2x2 r) self). is_cult_leader c)"
    using iter_neighbors_subset [of "grid_2x2 r" "(row self, col self)" False False cultist_influence]
    by (auto simp: check_cultist_iter_def grid_2x2_def ColorCell_def)
  ultimately show ?thesis by (simp add: truthy_cultist_scan)
qed

lemma next_opinion_2x2:
  assumes "i < 4"
  shows "\<exists>r'. next_opinion (grid_2x2 r) (agents (grid_2x2 r) ! i) =
           Inr (if real (global_draws r (global_pos r) mod 2 ^ 53) / 2 ^ 53 < low_tie_threshold \<and> i < 3
                then Some 1 else Some 0, r')"
proof -
  let ?self = "agents (grid_2x2 r) ! i"
  obtain a d where cs: "cultist_scan (grid_2x2 r) ?self = (a, d)"
    by (cases "cultist_scan (grid_2x2 r) ?self")
  then have a: "a = None" using no_leader_2x2 [of r ?self] by simp
  have r: "rnd (grid_2x2 r) = r" by (simp add: grid_2x2_def)
  show ?thesis
  proof (cases "i < 3")
    case True
    show ?thesis
      unfolding next_opinion_cases [OF cs] Let_def
      by (simp add: a truthy_def r tied_2x2(1,2) [OF True] True)
  next
    case False
    then have i: "i = 3" using assms by simp
    have "\<exists>r'. next_opinion (grid_2x2 r) ?self = Inr (Some 0, r')"
      unfolding next_opinion_cases [OF cs] Let_def
      by (simp add: a truthy_def r tied_2x2(3,4) [of 0] i)
    then show ?thesis using False by simp
  qed
qed

lemma step_2x2:
  assumes "global_draws r = (\<lambda>_. c)"
  shows "\<exists>m'. step (grid_2x2 r) = Inr m' \<and>
           map state (agents m') =
             (if real (c mod 2 ^ 53) / 2 ^ 53 < low_tie_threshold
              then [Some 1, Some 1, Some 1, Some 0] else [Some 0, Some 0, Some 0, Some 0])"
proof -
  let ?g = "grid_2x2 r"
  have l: "length (agents ?g) = 4" by (simp add: grid_2x2_def)
  then have "2 \<le> length (agents ?g)" by simp
  from step_total [OF grid_2x2_ok this] obtain m' where s: "step ?g = Inr m'" by blast
  have l': "length (agents m') = 4" using grid_ok_step(2) [OF grid_2x2_ok s] l by simp
  have st: "state (agents m' ! i) =
      (if real (c mod 2 ^ 53) / 2 ^ 53 < low_tie_threshold \<and> i < 3 then Some 1 else Some 0)"
    if i: "i < 4" for i
  proof -
    have nl: "\<not> is_cult_leader (agents ?g ! i)"
      using i by (auto simp: grid_2x2_def ColorCell_def nth_Cons' )
    have "Suc (steps ?g) mod 100 \<noteq> 0" by (simp add: grid_2x2_def)
    from step_state [OF s _ nl this] i l obtain mi r' where
      d: "do_determine_opinion [0..<i] ?g = Inr mi"
      and n: "next_opinion (?g\<lparr>rnd := rnd mi\<rparr>) (agents ?g ! i) = Inr (state (agents m' ! i), r')"
      by auto
    have gd: "global_draws (rnd mi) = (\<lambda>_. c)"
      using do_determine_opinion_keeps_draws [OF d] assms by (simp add: grid_2x2_def)
    have ag: "agents ?g = agents (grid_2x2 (rnd mi))" by (simp add: grid_2x2_def)
    from next_opinion_2x2 [OF i, of "rnd mi"] n show ?thesis
      unfolding grid_2x2_rnd ag gd by auto
  qed
  have "map state (agents m') = [state (agents m' ! 0), state (agents m' ! 1),
      state (agents m' ! 2), state (agents m' ! 3)]"
    using l' by (intro nth_equalityI) (auto simp: nth_Cons' less_Suc_eq numeral_eq_Suc)
  then have "map state (agents m') =
             (if real (c mod 2 ^ 53) / 2 ^ 53 < low_tie_threshold
              then [Some 1, Some 1, Some 1, Some 0] else [Some 0, Some 0, Some 0, Some 0])"
    by (simp add: st)
  with s show ?thesis by blast
qed

lemma init_2x2:
  "\<exists>m. init 2 2 rng_a = Inr m \<and> map state (agents m) = [Some 0, Some 0, Some 0, Some 0]"
  "\<exists>m. init 2 2 rng_b = Inr m \<and> map state (agents m) = [Some 1, Some 1, Some 1, Some 0]"
proof -
  have a: "global_draws (rng_a\<lparr>model_pos := 4\<rparr>) = (\<lambda>_. 2 ^ 52)"
    and b: "global_draws (rng_b\<lparr>model_pos := 4\<rparr>) = (\<lambda>_. 2 ^ 49)"
    by (simp_all add: rng_a_def rng_b_def)
  show "\<exists>m. init 2 2 rng_a = Inr m \<and> map state (agents m) = [Some 0, Some 0, Some 0, Some 0]"
    using step_2x2 [OF a] by (simp add: init_def populate_2x2 low_tie_threshold_def)
  show "\<exists>m. init 2 2 rng_b = Inr m \<and> map state (agents m) = [Some 1, Some 1, Some 1, Some 0]"
    using step_2x2 [OF b] by (simp add: init_def populate_2x2 low_tie_threshold_def)
qed

subsection \<open>Two runs under generators that yield the same draws\<close>

lemma same_drawsD:
  assumes "same_draws r1 r2"
  shows "global_draws r1 (global_pos r1) = global_draws r2 (global_pos r2)"
    and "global_draws r1 (Suc (global_pos r1)) = global_draws r2 (Suc (global_pos r2))"
    and "model_draws r1 (model_pos r1) = model_draws r2 (model_pos r2)"
proof -
  have g: "global_draws r1 (global_pos r1 + k) = global_draws r2 (global_pos r2 + k)"
    and m: "model_draws r1 (model_pos r1 + k) = model_draws r2 (model_pos r2 + k)" for k
    using assms by (simp_all add: same_draws_def)
  show "global_draws r1 (global_pos r1) = global_draws r2 (global_pos r2)" using g [of 0] by simp
  show "global_draws r1 (Suc (global_pos r1)) = global_draws r2 (Suc (global_pos r2))"
    using g [of 1] by simp
  show "model_draws r1 (model_pos r1) = model_draws r2 (model_pos r2)" using m [of 0] by simp
qed

lemma same_draws_advance:
  assumes "same_draws r1 r2"
  shows "same_draws (r1\<lparr>global_pos := global_pos r1 + g, model_pos := model_pos r1 + p\<rparr>)
                    (r2\<lparr>global_pos := global_pos r2 + g, model_pos := model_pos r2 + p\<rparr>)"
proof -
  have a: "global_draws r1 (global_pos r1 + k) = global_draws r2 (global_pos r2 + k)"
    and b: "model_draws r1 (model_pos r1 + k) = model_draws r2 (model_pos r2 + k)" for k
    using assms by (simp_all add: same_draws_def)
  show ?thesis
    using a [of "g + _"] b [of "p + _"] by (simp add: same_draws_def add.assoc)
qed

lemma same_draws_forms:
  assumes "same_draws r1 r2"
  shows "same_draws (r1\<lparr>global_pos := Suc (global_pos r1)\<rparr>) (r2\<lparr>global_pos := Suc (global_pos r2)\<rparr>)"
    and "same_draws (r1\<lparr>global_pos := Suc (global_pos r1), model_pos := Suc (model_pos r1)\<rparr>)
                    (r2\<lparr>global_pos := Suc (global_pos r2), model_pos := Suc (model_pos r2)\<rparr>)"
    and "same_draws (r1\<lparr>global_pos := Suc (Suc (global_pos r1)), model_pos := Suc (model_pos r1)\<rparr>)
                    (r2\<lparr>global_pos := Suc (Suc (global_pos r2)), model_pos := Suc (model_pos r2)\<rparr>)"
    and "same_draws (r1\<lparr>model_pos := Suc (model_pos r1)\<rparr>) (r2\<lparr>model_pos := Suc (model_pos r2)\<rparr>)"
  using same_draws_advance [OF assms, where g = 1 and p = 0]
    same_draws_advance [OF assms, where g = 1 and p = 1]
    same_draws_advance [OF assms, where g = 2 and p = 1]
    same_draws_advance [OF assms, where g = 0 and p = 1]
  by simp_all

lemma rnd_irrelevant:
  "cultist_scan (m\<lparr>rnd := r\<rparr>) self = cultist_scan m self"
  "tied_opinions (m\<lparr>rnd := r\<rparr>) self = tied_opinions m self"
  "low_tied_opinions (m\<lparr>rnd := r\<rparr>) self = low_tied_opinions m self"
proof -
  have g: "grid_at (m\<lparr>rnd := r\<rparr>) = grid_at m"
    by (intro ext) (simp add: grid_at_def)
  have i: "iter_neighbors (m\<lparr>rnd := r\<rparr>) = iter_neighbors m"
    by (intro ext) (simp add: iter_neighbors_def get_neighborhood_def g)
  show "cultist_scan (m\<lparr>rnd := r\<rparr>) self = cultist_scan m self"
    by (simp add: cultist_scan_def check_cultist_iter_def i)
  have p: "polled_opinions (m\<lparr>rnd := r\<rparr>) self = polled_opinions m self"
    by (simp add: polled_opinions_def neighbors_opinion_def neighbor_iter_def i)
  show "tied_opinions (m\<lparr>rnd := r\<rparr>) self = tied_opinions m self"
    "low_tied_opinions (m\<lparr>rnd := r\<rparr>) self = low_tied_opinions m self"
    by (simp_all add: tied_opinions_def low_tied_opinions_def p)
qed

lemma next_opinion_same_draws:
  assumes "same_draws r1 r2"
  shows "rel_sum (=) (\<lambda>x y. fst x = fst y \<and> same_draws (snd x) (snd y))
           (next_opinion (m\<lparr>rnd := r1\<rparr>) self) (next_opinion (m\<lparr>rnd := r2\<rparr>) self)"
proof -
  obtain a d where cs: "cultist_scan m self = (a, d)" by (cases "cultist_scan m self")
  have cs1: "cultist_scan (m\<lparr>rnd := r1\<rparr>) self = (a, d)"
    and cs2: "cultist_scan (m\<lparr>rnd := r2\<rparr>) self = (a, d)"
    by (simp_all add: rnd_irrelevant cs)
  note d = same_drawsD [OF assms]
  note f = same_draws_forms [OF assms]
  show ?thesis
    unfolding next_opinion_cases [OF cs1] next_opinion_cases [OF cs2] Let_def
    by (simp add: rnd_irrelevant d f)
qed

lemma same_resultE:
  assumes "same_result a b"
  obtains e where "a = Inl e" "b = Inl e" | x y where "a = Inr x" "b = Inr y" "same_model x y"
  using assms by (cases a; cases b) (simp_all add: same_result_def)

lemma set_next_state_rnd:
  "set_next_state i v q (m\<lparr>rnd := r\<rparr>) = set_next_state i v q m"
  by (simp add: set_next_state_def)

lemma same_model_rnd:
  "same_model m1 m2 \<Longrightarrow> m2 = m1\<lparr>rnd := rnd m2\<rparr>"
  by (simp add: same_model_def)

lemma same_model_iff:
  "same_model (m\<lparr>rnd := r1\<rparr>) (m\<lparr>rnd := r2\<rparr>) \<longleftrightarrow> same_draws r1 r2"
  by (simp add: same_model_def)

lemma determine_opinion_same:
  assumes "same_model m1 m2"
  shows "same_result (determine_opinion i m1) (determine_opinion i m2)"
proof -
  have m2: "m2 = m1\<lparr>rnd := rnd m2\<rparr>" by (rule same_model_rnd [OF assms])
  have m1: "m1 = m1\<lparr>rnd := rnd m1\<rparr>" by simp
  have sd: "same_draws (rnd m1) (rnd m2)" using assms by (simp add: same_model_def)
  have ag: "agents m2 = agents m1" using assms by (simp add: same_model_def)
  have n: "rel_sum (=) (\<lambda>x y. fst x = fst y \<and> same_draws (snd x) (snd y))
           (next_opinion m1 (agents m1 ! i)) (next_opinion m2 (agents m1 ! i))"
    using next_opinion_same_draws [OF sd, of m1 "agents m1 ! i"] m2 by simp
  show ?thesis
  proof (cases "next_opinion m1 (agents m1 ! i)")
    case (Inl e)
    with n have "next_opinion m2 (agents m1 ! i) = Inl e"
      by (cases "next_opinion m2 (agents m1 ! i)") simp_all
    with Inl show ?thesis by (simp add: determine_opinion_def ag same_result_def)
  next
    case (Inr x)
    obtain v q where x: "x = (v, q)" by (cases x)
    from n Inr x obtain q' where n2: "next_opinion m2 (agents m1 ! i) = Inr (v, q')"
      and q: "same_draws q q'"
      by (cases "next_opinion m2 (agents m1 ! i)") auto
    have "set_next_state i v q' m2 = (set_next_state i v q m1)\<lparr>rnd := q'\<rparr>"
      by (subst m2) (simp add: set_next_state_def)
    moreover have "set_next_state i v q m1 = (set_next_state i v q m1)\<lparr>rnd := q\<rparr>"
      by (simp add: set_next_state_def)
    ultimately have "same_model (set_next_state i v q m1) (set_next_state i v q' m2)"
      using q same_model_iff [where m = "set_next_state i v q m1" and ?r1.0 = q and ?r2.0 = q']
      by simp
    then show ?thesis using Inr x n2 by (simp add: determine_opinion_def ag same_result_def)
  qed
qed

lemma do_determine_opinion_same:
  "same_model m1 m2 \<Longrightarrow>
     same_result (do_determine_opinion is m1) (do_determine_opinion is m2)"
proof (induction "is" arbitrary: m1 m2)
  case Nil
  then show ?case by (simp add: same_result_def)
next
  case (Cons i "is")
  from determine_opinion_same [OF Cons.prems, of i] show ?case
  proof (rule same_resultE)
    fix e assume "determine_opinion i m1 = Inl e" "determine_opinion i m2 = Inl e"
    then show ?thesis by (simp add: same_result_def)
  next
    fix a b assume "determine_opinion i m1 = Inr a" "determine_opinion i m2 = Inr b"
      "same_model a b"
    with Cons.IH [of a b] show ?thesis by simp
  qed
qed

lemma assume_opinion_rnd:
  "assume_opinion i (m\<lparr>rnd := r\<rparr>) = (assume_opinion i m)\<lparr>rnd := r\<rparr>"
  by (simp add: assume_opinion_def Let_def)

lemma do_assume_opinion_rnd:
  "do_assume_opinion is (m\<lparr>rnd := r\<rparr>) = (do_assume_opinion is m)\<lparr>rnd := r\<rparr>"
  unfolding do_assume_opinion_def
  by (induction "is" arbitrary: m) (simp_all add: assume_opinion_rnd)

lemma assume_phase_same:
  assumes "same_model m1 m2" shows "same_model (assume_phase m1) (assume_phase m2)"
proof -
  have m2: "m2 = m1\<lparr>rnd := rnd m2\<rparr>" by (rule same_model_rnd [OF assms])
  have "assume_phase m2 = (assume_phase m1)\<lparr>rnd := rnd m2\<rparr>"
    by (subst m2) (simp add: assume_phase_def do_assume_opinion_rnd)
  moreover have "rnd (assume_phase m1) = rnd m1"
    using do_assume_opinion_cells [of "[0..<length (agents m1)]" m1 0]
    by (simp add: assume_phase_def)
  ultimately show ?thesis using assms by (simp add: same_model_def)
qed

lemma manipulate_random_cell_same:
  assumes "same_model m1 m2"
  shows "same_result (manipulate_random_cell m1) (manipulate_random_cell m2)"
proof -
  have e: "width m2 = width m1" "height m2 = height m1" "agents m2 = agents m1"
    "steps m2 = steps m1" and sd: "same_draws (rnd m1) (rnd m2)"
    using assms by (simp_all add: same_model_def)
  have c: "coord_iter m2 = coord_iter m1" by (simp add: coord_iter_def e)
  have "grid_at m2 = grid_at m1" by (intro ext) (simp add: grid_at_def e)
  then have g: "get_cell_list_contents m2 = get_cell_list_contents m1"
    by (intro ext) (simp add: get_cell_list_contents_def)
  note d = same_drawsD(3) [OF sd]
  note f = same_draws_forms(4) [OF sd]
  show ?thesis
    by (simp add: manipulate_random_cell_def choice_def randbelow_def c g d e f same_model_def
        same_result_def split: list.splits)
qed

lemma finish_step_same:
  assumes "same_model m1 m2"
  shows "same_result (finish_step m1) (finish_step m2)"
proof -
  have s: "same_model (m1\<lparr>steps := steps m1 + 1\<rparr>) (m2\<lparr>steps := steps m2 + 1\<rparr>)"
    using assms by (simp add: same_model_def)
  have "steps m1 = steps m2" using assms by (simp add: same_model_def)
  then show ?thesis
    using manipulate_random_cell_same [OF s] s
    by (simp add: finish_step_def Let_def same_result_def)
qed

lemma step_same:
  assumes "same_model m1 m2"
  shows "same_result (step m1) (step m2)"
proof -
  have l: "length (agents m1) = length (agents m2)" using assms by (simp add: same_model_def)
  from do_determine_opinion_same [OF assms, of "[0..<length (agents m1)]"]
  have "same_result (determine_phase m1) (determine_phase m2)"
    by (simp add: determine_phase_def l)
  then show ?thesis
  proof (rule same_resultE)
    fix e assume "determine_phase m1 = Inl e" "determine_phase m2 = Inl e"
    then show ?thesis by (simp add: step_def same_result_def)
  next
    fix a b assume ab: "determine_phase m1 = Inr a" "determine_phase m2 = Inr b"
      and s: "same_model a b"
    from finish_step_same [OF assume_phase_same [OF s]] ab
    show ?thesis by (simp add: step_def)
  qed
qed

lemma run_same:
  "same_model m1 m2 \<Longrightarrow> same_result (run n m1) (run n m2)"
proof (induction n arbitrary: m1 m2)
  case 0
  then show ?case by (simp add: same_result_def)
next
  case (Suc n)
  from step_same [OF Suc.prems] show ?case
  proof (rule same_resultE)
    fix e assume "step m1 = Inl e" "step m2 = Inl e"
    then show ?thesis by (simp add: same_result_def)
  next
    fix a b assume "step m1 = Inr a" "step m2 = Inr b" "same_model a b"
    with Suc.IH [of a b] show ?thesis by simp
  qed
qed

lemma populate_same:
  assumes "same_draws r1 r2"
  shows "same_result (populate w h r1) (populate w h r2)"
proof -
  from populate_total obtain p1 p2 where p: "populate w h r1 = Inr p1" "populate w h r2 = Inr p2"
    by blast
  note c1 = populate_cells [OF p(1)] and c2 = populate_cells [OF p(2)]
  have m: "model_draws r1 (model_pos r1 + k) = model_draws r2 (model_pos r2 + k)" for k
    using assms by (simp add: same_draws_def)
  have "agents p1 = agents p2"
    using c1(4,6) c2(4,6) m by (intro nth_equalityI) simp_all
  moreover have "same_draws (rnd p1) (rnd p2)"
    using same_draws_advance [OF assms, where g = 0 and p = "w * h"] c1(5) c2(5) by simp
  ultimately have "same_model p1 p2" using c1(1,2,3) c2(1,2,3) by (simp add: same_model_def)
  then show ?thesis by (simp add: p same_result_def)
qed

lemma init_same:
  assumes "same_draws r1 r2"
  shows "same_result (init w h r1) (init w h r2)"
  using populate_same [OF assms, of w h]
proof (rule same_resultE)
  fix e assume "populate w h r1 = Inl e" "populate w h r2 = Inl e"
  then show ?thesis by (simp add: init_def same_result_def)
next
  fix a b assume "populate w h r1 = Inr a" "populate w h r2 = Inr b" "same_model a b"
  with step_same [of a b] show ?thesis by (simp add: init_def)
qed

subsection \<open>Which cells the grid enumerates\<close>

lemma grid_ok_index:
  assumes "grid_ok m" "j < length (agents m)"
  shows "row (agents m ! j) * height m + col (agents m ! j) = j"
  using grid_ok_nth(1,2) [OF assms] by simp

lemma grid_ok_cell_bounds:
  assumes "grid_ok m" "c \<in> set (agents m)"
  shows "row c < width m" "col c < height m" "agents m ! (row c * height m + col c) = c"
    "row c * height m + col c < length (agents m)"
proof -
  from assms(2) obtain j where j: "j < length (agents m)" and c: "c = agents m ! j"
    by (auto simp: in_set_conv_nth)
  show "row c < width m" "col c < height m"
    using grid_ok_nth [OF assms(1) j] c by simp_all
  show "agents m ! (row c * height m + col c) = c" "row c * height m + col c < length (agents m)"
    using grid_ok_index [OF assms(1) j] c j by simp_all
qed

lemma map_filter_all_some:
  assumes "\<And>p. p \<in> set ps \<Longrightarrow> f p = Some (g p)"
  shows "List.map_filter f ps = map g ps"
  using assms by (induction ps) (simp_all add: List.map_filter_def)

lemma get_neighborhood_in_bounds:
  "p \<in> set (get_neighborhood m pos moore ic rad) \<Longrightarrow> fst p < width m \<and> snd p < height m"
  by (cases p; cases pos) (auto simp: set_get_neighborhood)

lemma iter_neighbors_map:
  assumes "grid_ok m"
  shows "iter_neighbors m pos moore ic rad =
           map (\<lambda>p. agents m ! (fst p * height m + snd p)) (get_neighborhood m pos moore ic rad)"
proof -
  have "List.map_filter (grid_at m) (get_neighborhood m pos moore ic rad) =
        map (\<lambda>p. fst p * height m + snd p) (get_neighborhood m pos moore ic rad)"
  proof (rule map_filter_all_some)
    fix p assume "p \<in> set (get_neighborhood m pos moore ic rad)"
    then have "fst p < width m" "snd p < height m" using get_neighborhood_in_bounds by blast+
    from grid_ok_at(1) [OF assms this] show "grid_at m p = Some (fst p * height m + snd p)" by simp
  qed
  then show ?thesis by (simp add: iter_neighbors_def comp_def)
qed

lemma set_iter_neighbors:
  assumes "grid_ok m"
  shows "set (iter_neighbors m (x, y) moore False rad) =
           {c \<in> set (agents m). (row c, col c) \<noteq> (x, y) \<and>
              \<bar>int (row c) - int x\<bar> \<le> int rad \<and> \<bar>int (col c) - int y\<bar> \<le> int rad \<and>
              (moore \<or> \<bar>int (row c) - int x\<bar> + \<bar>int (col c) - int y\<bar> \<le> int rad)}"
    (is "?L = ?R")
proof (intro set_eqI iffI)
  fix c assume "c \<in> ?L"
  then obtain p where p: "p \<in> set (get_neighborhood m (x, y) moore False rad)"
    and c: "c = agents m ! (fst p * height m + snd p)"
    by (auto simp: iter_neighbors_map [OF assms])
  from get_neighborhood_in_bounds [OF p] have b: "fst p < width m" "snd p < height m" by simp_all
  have rc: "row c = fst p" "col c = snd p"
    using grid_ok_at(2,3) [OF assms b] c by simp_all
  have "fst p * height m + snd p < length (agents m)"
    using cell_index_bound [OF b] grid_ok_length [OF assms] by simp
  then have mem: "c \<in> set (agents m)" using c by simp
  have "(fst p, snd p) \<in> set (get_neighborhood m (x, y) moore False rad)" using p by simp
  then show "c \<in> ?R"
    unfolding set_get_neighborhood using mem rc by auto
next
  fix c assume "c \<in> ?R"
  then have mem: "c \<in> set (agents m)" and ne: "(row c, col c) \<noteq> (x, y)"
    and near: "\<bar>int (row c) - int x\<bar> \<le> int rad" "\<bar>int (col c) - int y\<bar> \<le> int rad"
    and mo: "moore \<or> \<bar>int (row c) - int x\<bar> + \<bar>int (col c) - int y\<bar> \<le> int rad"
    by simp_all
  note b = grid_ok_cell_bounds [OF assms mem]
  have "(row c, col c) \<in> set (get_neighborhood m (x, y) moore False rad)"
    unfolding set_get_neighborhood using b(1,2) ne near mo by auto
  then have "(\<lambda>p. agents m ! (fst p * height m + snd p)) (row c, col c) \<in>
      (\<lambda>p. agents m ! (fst p * height m + snd p)) ` set (get_neighborhood m (x, y) moore False rad)"
    by (rule imageI)
  then show "c \<in> ?L" by (simp add: iter_neighbors_map [OF assms] b(3))
qed

lemma distinct_get_neighborhood: "distinct (get_neighborhood m pos moore ic rad)"
  by (simp add: get_neighborhood_def Let_def distinct_product distinct_removeAll)

lemma distinct_iter_neighbors:
  assumes "grid_ok m"
  shows "distinct (iter_neighbors m pos moore ic rad)"
  unfolding iter_neighbors_map [OF assms] distinct_map
proof (intro conjI inj_onI)
  show "distinct (get_neighborhood m pos moore ic rad)" by (rule distinct_get_neighborhood)
  fix p q
  assume p: "p \<in> set (get_neighborhood m pos moore ic rad)"
    and q: "q \<in> set (get_neighborhood m pos moore ic rad)"
    and e: "agents m ! (fst p * height m + snd p) = agents m ! (fst q * height m + snd q)"
  from get_neighborhood_in_bounds [OF p] get_neighborhood_in_bounds [OF q]
  have b: "fst p < width m" "snd p < height m" "fst q < width m" "snd q < height m" by simp_all
  have "fst p = fst q" "snd p = snd q"
    using grid_ok_at(2,3) [OF assms b(1,2)] grid_ok_at(2,3) [OF assms b(3,4)] e by simp_all
  then show "p = q" by (simp add: prod_eq_iff)
qed

lemma length_moore_neighborhood:
  assumes "x < width m" "y < height m"
  shows "length (get_neighborhood m (x, y) True False 1) \<le> 8"
proof -
  let ?xs = "[x - 1..<min (width m) (x + 1 + 1)]" and ?ys = "[y - 1..<min (height m) (y + 1 + 1)]"
  have l: "length ?xs \<le> 3" "length ?ys \<le> 3" by simp_all
  then have "length ?xs * length ?ys \<le> 3 * 3" by (rule mult_le_mono)
  then have p: "length (List.product ?xs ?ys) \<le> 9" by simp
  have d: "distinct (List.product ?xs ?ys)" by (simp add: distinct_product)
  have mem: "(x, y) \<in> set (List.product ?xs ?ys)" using assms by simp
  have "length (removeAll (x, y) (List.product ?xs ?ys)) = length (remove1 (x, y) (List.product ?xs ?ys))"
    using d by (simp add: distinct_remove1_removeAll)
  also have "\<dots> = length (List.product ?xs ?ys) - 1"
    by (simp only: length_remove1 mem if_True)
  finally have "length (removeAll (x, y) (List.product ?xs ?ys)) \<le> 8" using p by linarith
  then show ?thesis by (simp add: get_neighborhood_def Let_def)
qed

subsection \<open>What the tally counts\<close>

lemma counter_add_map_of:
  "distinct (map fst kcs) \<Longrightarrow>
     distinct (map fst (counter_add k kcs)) \<and>
     fst ` set (counter_add k kcs) = insert k (fst ` set kcs) \<and>
     (\<forall>v. map_of (counter_add k kcs) v =
        (if v = k then Some (case map_of kcs k of None \<Rightarrow> 1 | Some c \<Rightarrow> Suc c)
         else map_of kcs v))"
proof (induction kcs)
  case Nil
  then show ?case by simp
next
  case (Cons kc kcs)
  obtain k' c where kc: "kc = (k', c)" by (cases kc)
  from Cons.prems have d: "distinct (map fst kcs)" and n: "k' \<notin> fst ` set kcs"
    by (simp_all add: kc)
  note ih = Cons.IH [OF d]
  show ?case
  proof (cases "k = k'")
    case True
    then show ?thesis using d n by (simp add: kc)
  next
    case False
    have 1: "distinct (map fst (counter_add k (kc # kcs)))"
      using False ih n by (simp add: kc)
    have 2: "fst ` set (counter_add k (kc # kcs)) = insert k (fst ` set (kc # kcs))"
      using False ih by (simp add: kc insert_commute)
    have 3: "map_of (counter_add k (kc # kcs)) v =
        (if v = k then Some (case map_of (kc # kcs) k of None \<Rightarrow> 1 | Some c \<Rightarrow> Suc c)
         else map_of (kc # kcs) v)" for v
      using False ih by (simp add: kc)
    from 1 2 3 show ?thesis by blast
  qed
qed

lemma foldl_counter_add_map_of:
  "distinct (map fst acc) \<Longrightarrow>
     distinct (map fst (foldl (\<lambda>kcs k. counter_add k kcs) acc xs)) \<and>
     fst ` set (foldl (\<lambda>kcs k. counter_add k kcs) acc xs) = fst ` set acc \<union> set xs \<and>
     (\<forall>v. map_of (foldl (\<lambda>kcs k. counter_add k kcs) acc xs) v =
        (if v \<in> set xs
         then Some (count_list xs v + (case map_of acc v of None \<Rightarrow> 0 | Some c \<Rightarrow> c))
         else map_of acc v))"
proof (induction xs arbitrary: acc)
  case Nil
  then show ?case by simp
next
  case (Cons x xs)
  note c = counter_add_map_of [OF Cons.prems, of x]
  from c have d: "distinct (map fst (counter_add x acc))" by simp
  note ih = Cons.IH [OF d]
  have 1: "distinct (map fst (foldl (\<lambda>kcs k. counter_add k kcs) acc (x # xs)))"
    using ih by simp
  have 2: "fst ` set (foldl (\<lambda>kcs k. counter_add k kcs) acc (x # xs)) =
      fst ` set acc \<union> set (x # xs)"
    using ih c by simp
  have 3: "map_of (foldl (\<lambda>kcs k. counter_add k kcs) acc (x # xs)) v =
        (if v \<in> set (x # xs)
         then Some (count_list (x # xs) v + (case map_of acc v of None \<Rightarrow> 0 | Some c \<Rightarrow> c))
         else map_of acc v)" for v
  proof -
    have a: "map_of (counter_add x acc) v =
        (if v = x then Some (case map_of acc x of None \<Rightarrow> 1 | Some c \<Rightarrow> Suc c)
         else map_of acc v)"
      using c by simp
    have b: "map_of (foldl (\<lambda>kcs k. counter_add k kcs) (counter_add x acc) xs) v =
        (if v \<in> set xs
         then Some (count_list xs v +
                (case map_of (counter_add x acc) v of None \<Rightarrow> 0 | Some c \<Rightarrow> c))
         else map_of (counter_add x acc) v)"
      using ih by simp
    show ?thesis
      unfolding foldl_Cons b a by (cases "v = x"; cases "map_of acc x") simp_all
  qed
  from 1 2 3 show ?case by blast
qed

lemma Counter_counts:
  "distinct (map fst (Counter xs))"
  "fst ` set (Counter xs) = set xs"
  "map_of (Counter xs) v = (if v \<in> set xs then Some (count_list xs v) else None)"
  using foldl_counter_add_map_of [of "[]" xs] by (simp_all add: Counter_def)

lemma Counter_entry:
  "(v, n) \<in> set (Counter xs) \<longleftrightarrow> v \<in> set xs \<and> n = count_list xs v"
proof -
  have "((v, n) \<in> set (Counter xs)) = (map_of (Counter xs) v = Some n)"
    by (rule map_of_eq_Some_iff [symmetric]) (rule Counter_counts(1))
  then show ?thesis by (auto simp: Counter_counts(3))
qed

lemma set_most_common: "set (most_common kcs) = set kcs"
  by (simp add: most_common_def)

subsection \<open>Unanimous neighbours\<close>







subsection \<open>The scan for leaders\<close>








subsection \<open>Neighbours and leaders in range, by distance\<close>


lemma set_neighbor_iter:
  assumes "grid_ok m"
  shows "set (neighbor_iter m self) = {c \<in> set (agents m). chebyshev self c = 1}"
  unfolding neighbor_iter_def set_iter_neighbors [OF assms]
  by (auto simp: chebyshev_def max_def)


lemma count_list_map:
  "count_list (map f xs) v = length (filter (\<lambda>x. f x = v) xs)"
  by (induction xs) simp_all


subsection \<open>Claims\<close>

text \<open>
  C1. During one \<open>step\<close>, the determine phase runs to its end before the commit
  phase starts (\<open>step\<close> is \<open>finish_step\<close> after \<open>assume_phase\<close> after \<open>determine_phase\<close>).
  At the end of the determine phase the row, the column, the committed opinion and
  the leader flag of every cell are what they were before the step. The turn of
  cell \<open>i\<close> starts in the state \<open>mi\<close> that the turns of the cells before it have left;
  in \<open>mi\<close> the grid still shows what it showed before the step; the pending opinion
  of cell \<open>i\<close> is the value that the rule of lines 50 to 79 computes on the grid
  as it was before the step, under the generator state of \<open>mi\<close>; and the turn
  changes nothing but that pending opinion and the generator. No cell's computation
  depends on a pending opinion written earlier in the same step.
\<close>

theorem determine_phase_reads_pre_step:
  assumes "step m = Inr m''"
  shows "\<exists>m'. determine_phase m = Inr m' \<and> finish_step (assume_phase m') = Inr m'' \<and>
           snapshot m' = snapshot m \<and>
           (\<forall>i<length (agents m). \<exists>mi r'.
               do_determine_opinion [0..<i] m = Inr mi \<and> snapshot mi = snapshot m \<and>
               next_opinion (m\<lparr>rnd := rnd mi\<rparr>) (agents m ! i) =
                 Inr (next_state (agents m' ! i), r') \<and>
               do_determine_opinion [0..<Suc i] m =
                 Inr (set_next_state i (next_state (agents m' ! i)) r' mi) \<and>
               (\<forall>j. j \<noteq> i \<longrightarrow>
                  agents (set_next_state i (next_state (agents m' ! i)) r' mi) ! j = agents mi ! j))"
proof -
  from assms obtain m' where dp: "determine_phase m = Inr m'"
    and fin: "finish_step (assume_phase m') = Inr m''"
    by (auto simp: step_def split: sum.splits)
  have s: "snapshot m' = snapshot m"
    using dp unfolding determine_phase_def by (rule do_determine_opinion_snapshot)
  have "\<exists>mi r'. do_determine_opinion [0..<i] m = Inr mi \<and> snapshot mi = snapshot m \<and>
               next_opinion (m\<lparr>rnd := rnd mi\<rparr>) (agents m ! i) =
                 Inr (next_state (agents m' ! i), r') \<and>
               do_determine_opinion [0..<Suc i] m =
                 Inr (set_next_state i (next_state (agents m' ! i)) r' mi) \<and>
               (\<forall>j. j \<noteq> i \<longrightarrow>
                  agents (set_next_state i (next_state (agents m' ! i)) r' mi) ! j = agents mi ! j)"
    if "i < length (agents m)" for i
    using determine_phase_turn [OF dp that] set_next_state_frame(1) by blast
  with dp fin s show ?thesis by blast
qed

theorem determine_phase_reads_pre_step_witness:
  "\<exists>m'' m' mi r'.
     step (grid_1x2 (Some 3) None False (Some 5) None 0) = Inr m'' \<and>
     determine_phase (grid_1x2 (Some 3) None False (Some 5) None 0) = Inr m' \<and>
     snapshot m' = snapshot (grid_1x2 (Some 3) None False (Some 5) None 0) \<and>
     do_determine_opinion [0..<1] (grid_1x2 (Some 3) None False (Some 5) None 0) = Inr mi \<and>
     next_opinion (grid_1x2 (Some 3) None False (Some 5) None 0\<lparr>rnd := rnd mi\<rparr>)
       (agents (grid_1x2 (Some 3) None False (Some 5) None 0) ! 1) =
     Inr (next_state (agents m' ! 1), r')"
proof -
  let ?g = "grid_1x2 (Some 3) None False (Some 5) None 0"
  from step_1x2 [OF calm_rng0, of "Some 3" None False "Some 5" None 0] obtain m''
    where s: "step ?g = Inr m''"
    unfolding grid_1x2_rnd by blast
  from determine_phase_reads_pre_step [OF s] obtain m' where
    a: "determine_phase ?g = Inr m'" and b: "snapshot m' = snapshot ?g"
    and c: "\<forall>i<length (agents ?g). \<exists>mi r'.
               do_determine_opinion [0..<i] ?g = Inr mi \<and> snapshot mi = snapshot ?g \<and>
               next_opinion (?g\<lparr>rnd := rnd mi\<rparr>) (agents ?g ! i) =
                 Inr (next_state (agents m' ! i), r') \<and>
               do_determine_opinion [0..<Suc i] ?g =
                 Inr (set_next_state i (next_state (agents m' ! i)) r' mi) \<and>
               (\<forall>j. j \<noteq> i \<longrightarrow>
                  agents (set_next_state i (next_state (agents m' ! i)) r' mi) ! j = agents mi ! j)"
    by blast
  have "1 < length (agents ?g)" by (simp add: grid_1x2_def)
  with c obtain mi r' where d: "do_determine_opinion [0..<1] ?g = Inr mi"
    and e: "next_opinion (?g\<lparr>rnd := rnd mi\<rparr>) (agents ?g ! 1) = Inr (next_state (agents m' ! 1), r')"
    by blast
  from s a b d e show ?thesis by blast
qed

text \<open>
  C2. In every state of a run, a cell that is a leader before a \<open>step\<close> is a leader
  after it and has the same opinion. The determine phase writes pending opinions
  only, \<open>assume_opinion\<close> leaves a leader untouched, and the perturbation sets the
  flag and writes \<open>OPINIONS[-1]\<close>, which a leader holds already: selecting a leader
  again changes nothing of it. The witness is a step on which the perturbation
  fires and selects the leader again.
\<close>

theorem leaders_persist:
  assumes "reachable m" "step m = Inr m'" "i < length (agents m)" "is_cult_leader (agents m ! i)"
  shows "is_cult_leader (agents m' ! i) \<and> state (agents m' ! i) = state (agents m ! i)"
  using reachable_leaders_max [OF assms(1)] assms(2,3,4) by (rule step_keeps_leaders)

theorem leaders_persist_witness:
  "\<exists>m'. step (grid_1x2 (Some 16) (Some 16) True (Some 16) (Some 16) 199) = Inr m' \<and>
        steps m' mod 100 = 0 \<and> is_cult_leader (agents m' ! 0) \<and>
        state (agents m' ! 0) = state (agents (grid_1x2 (Some 16) (Some 16) True (Some 16) (Some 16) 199) ! 0)"
proof -
  let ?m = "grid_1x2 (Some 16) (Some 16) True (Some 16) (Some 16) 199"
  from step_1x2_199 obtain r' where
    s: "step ?m = Inr (grid_1x2 (Some 16) (Some 16) True (Some 16) (Some 16) 200\<lparr>rnd := r'\<rparr>)"
    by blast
  have i: "0 < length (agents ?m)" and l: "is_cult_leader (agents ?m ! 0)"
    by (simp_all add: grid_1x2_def)
  have "steps (grid_1x2 (Some 16) (Some 16) True (Some 16) (Some 16) 200\<lparr>rnd := r'\<rparr>) mod 100 = 0"
    by (simp add: grid_1x2_def)
  with leaders_persist [OF reachable_1x2_199 s i l] s
  have all: "step ?m = Inr (grid_1x2 (Some 16) (Some 16) True (Some 16) (Some 16) 200\<lparr>rnd := r'\<rparr>) \<and>
        steps (grid_1x2 (Some 16) (Some 16) True (Some 16) (Some 16) 200\<lparr>rnd := r'\<rparr>) mod 100 = 0 \<and>
        is_cult_leader (agents (grid_1x2 (Some 16) (Some 16) True (Some 16) (Some 16) 200\<lparr>rnd := r'\<rparr>) ! 0) \<and>
        state (agents (grid_1x2 (Some 16) (Some 16) True (Some 16) (Some 16) 200\<lparr>rnd := r'\<rparr>) ! 0) =
          state (agents ?m ! 0)"
    by simp
  show ?thesis by (rule exI) (rule all)
qed

text \<open>
  C3. The tally \<open>neighbors_opinion\<close> of a cell is the \<open>Counter\<close> of the current opinions
  (\<open>_state\<close>) of the cells that \<open>iter_neighbors((row, col), True)\<close> yields. On a grid
  whose agents sit at their coordinates these are exactly the cells at Chebyshev
  distance \<open>1\<close>, each of them once, at most eight, and the cell itself is not among
  them. \<open>polled_opinions\<close> holds exactly one pair per opinion that occurs among these
  neighbours, with the number of neighbours that hold it, and \<open>tied_opinions\<close> and
  \<open>low_tied_opinions\<close> are taken from these pairs. This holds for every cell, leader
  or not.
\<close>

theorem tally_over_moore_neighbours:
  assumes "grid_ok m" "i < length (agents m)"
  shows "set (neighbor_iter m (agents m ! i)) =
           {c \<in> set (agents m). chebyshev (agents m ! i) c = 1} \<and>
         distinct (neighbor_iter m (agents m ! i)) \<and>
         length (neighbor_iter m (agents m ! i)) \<le> 8 \<and>
         agents m ! i \<notin> set (neighbor_iter m (agents m ! i)) \<and>
         neighbors_opinion m (agents m ! i) = Counter (map state (neighbor_iter m (agents m ! i))) \<and>
         (\<forall>v n. (v, n) \<in> set (polled_opinions m (agents m ! i)) \<longleftrightarrow>
            v \<in> state ` set (neighbor_iter m (agents m ! i)) \<and>
            n = length (filter (\<lambda>c. state c = v) (neighbor_iter m (agents m ! i)))) \<and>
         set (tied_opinions m (agents m ! i)) \<subseteq> set (polled_opinions m (agents m ! i)) \<and>
         set (low_tied_opinions m (agents m ! i)) \<subseteq> set (polled_opinions m (agents m ! i))"
proof -
  let ?self = "agents m ! i"
  have 1: "set (neighbor_iter m ?self) = {c \<in> set (agents m). chebyshev ?self c = 1}"
    by (rule set_neighbor_iter [OF assms(1)])
  have 2: "distinct (neighbor_iter m ?self)"
    unfolding neighbor_iter_def by (rule distinct_iter_neighbors [OF assms(1)])
  note n = grid_ok_nth [OF assms]
  have "length (get_neighborhood m (row ?self, col ?self) True False 1) \<le> 8"
    by (rule length_moore_neighborhood) (simp_all add: n)
  then have 3: "length (neighbor_iter m ?self) \<le> 8"
    by (simp add: neighbor_iter_def iter_neighbors_map [OF assms(1)])
  have 4: "?self \<notin> set (neighbor_iter m ?self)"
    unfolding 1 by (simp add: chebyshev_def)
  have 5: "neighbors_opinion m ?self = Counter (map state (neighbor_iter m ?self))"
    by (simp add: neighbors_opinion_def)
  have 6: "(v, n) \<in> set (polled_opinions m ?self) \<longleftrightarrow>
            v \<in> state ` set (neighbor_iter m ?self) \<and>
            n = length (filter (\<lambda>c. state c = v) (neighbor_iter m ?self))" for v n
    by (simp add: polled_opinions_def set_most_common neighbors_opinion_def Counter_entry
        count_list_map)
  have 7: "set (tied_opinions m ?self) \<subseteq> set (polled_opinions m ?self)"
    "set (low_tied_opinions m ?self) \<subseteq> set (polled_opinions m ?self)"
    by (simp_all add: tied_opinions_def low_tied_opinions_def)
  from 1 2 3 4 5 6 7 show ?thesis by blast
qed

theorem tally_over_moore_neighbours_witness:
  "set (neighbor_iter (grid_2x2 rng_a) (agents (grid_2x2 rng_a) ! 0)) =
     {c \<in> set (agents (grid_2x2 rng_a)). chebyshev (agents (grid_2x2 rng_a) ! 0) c = 1} \<and>
   distinct (neighbor_iter (grid_2x2 rng_a) (agents (grid_2x2 rng_a) ! 0)) \<and>
   length (neighbor_iter (grid_2x2 rng_a) (agents (grid_2x2 rng_a) ! 0)) \<le> 8 \<and>
   agents (grid_2x2 rng_a) ! 0 \<notin> set (neighbor_iter (grid_2x2 rng_a) (agents (grid_2x2 rng_a) ! 0))"
proof -
  have "0 < length (agents (grid_2x2 rng_a))" by (simp add: grid_2x2_def)
  from tally_over_moore_neighbours [OF grid_2x2_ok this] show ?thesis
    by (elim conjE) (intro conjI, assumption+)
qed

text \<open>
  C4. The code draws from two generators: the model's own (\<open>self.random\<close>, which the
  model's seed sets) and the module-level one (\<open>random.random()\<close> on lines 74 and 76,
  which the model's seed does not set). When two models agree on the grid, the
  agents and the step counter, and both generators yield the same draws in the two
  runs, then after any number \<open>n\<close> of steps the two runs have raised the same error
  or have reached the same cells, the same step counter and generators that yield
  the same draws again; the same holds of two calls of the constructor.
\<close>

theorem runs_agree_when_both_generators_agree:
  assumes "same_model m1 m2"
  shows "same_result (run n m1) (run n m2) \<and>
         (\<forall>a b. run n m1 = Inr a \<longrightarrow> run n m2 = Inr b \<longrightarrow>
            map state (agents a) = map state (agents b) \<and>
            map is_cult_leader (agents a) = map is_cult_leader (agents b)) \<and>
         same_result (init w h (rnd m1)) (init w h (rnd m2))"
proof -
  have r: "same_result (run n m1) (run n m2)" by (rule run_same [OF assms])
  have "agents a = agents b" if "run n m1 = Inr a" "run n m2 = Inr b" for a b
    using r that by (simp add: same_result_def same_model_def)
  moreover have "same_result (init w h (rnd m1)) (init w h (rnd m2))"
    using assms by (intro init_same) (simp add: same_model_def)
  ultimately show ?thesis using r by simp
qed

theorem runs_agree_when_both_generators_agree_witness:
  "same_result (run 2 (grid_2x2 rng_a)) (run 2 (grid_2x2 (rng_a\<lparr>global_pos := 7\<rparr>)))"
proof -
  have "same_model (grid_2x2 rng_a) (grid_2x2 (rng_a\<lparr>global_pos := 7\<rparr>))"
    by (simp add: same_model_def same_draws_def grid_2x2_def rng_a_def)
  from runs_agree_when_both_generators_agree [OF this] show ?thesis by simp
qed

text \<open>
  The claim as written fails when the seed is the seed of the model: two calls of
  the constructor for two columns and two rows under the same state of the model's
  generator create the same cells, with the opinions \<open>0, 0, 0, 1\<close>, and return
  different opinions, because the module-level generator yields \<open>0.5\<close> in one run
  and \<open>0.0625\<close> in the other, and the test of line 76 goes the other way.
\<close>

theorem model_seed_alone_counterexample:
  "model_draws rng_a = model_draws rng_b \<and> model_pos rng_a = model_pos rng_b \<and>
   (\<exists>p1 p2. populate 2 2 rng_a = Inr p1 \<and> populate 2 2 rng_b = Inr p2 \<and>
            agents p1 = agents p2 \<and> map state (agents p1) = [Some 0, Some 0, Some 0, Some 1]) \<and>
   (\<exists>m1 m2. init 2 2 rng_a = Inr m1 \<and> init 2 2 rng_b = Inr m2 \<and>
            map state (agents m1) = [Some 0, Some 0, Some 0, Some 0] \<and>
            map state (agents m2) = [Some 1, Some 1, Some 1, Some 0])"
proof -
  have 1: "model_draws rng_a = model_draws rng_b" "model_pos rng_a = model_pos rng_b"
    by (simp_all add: rng_b_def)
  have "agents (grid_2x2 (rng_a\<lparr>model_pos := 4\<rparr>)) = agents (grid_2x2 (rng_b\<lparr>model_pos := 4\<rparr>))"
    "map state (agents (grid_2x2 (rng_a\<lparr>model_pos := 4\<rparr>))) = [Some 0, Some 0, Some 0, Some 1]"
    by (simp_all add: grid_2x2_def ColorCell_def)
  with populate_2x2 have 2: "\<exists>p1 p2. populate 2 2 rng_a = Inr p1 \<and> populate 2 2 rng_b = Inr p2 \<and>
            agents p1 = agents p2 \<and> map state (agents p1) = [Some 0, Some 0, Some 0, Some 1]"
    by simp
  from init_2x2 have 3: "\<exists>m1 m2. init 2 2 rng_a = Inr m1 \<and> init 2 2 rng_b = Inr m2 \<and>
            map state (agents m1) = [Some 0, Some 0, Some 0, Some 0] \<and>
            map state (agents m2) = [Some 1, Some 1, Some 1, Some 0]"
    by auto
  from 1 2 3 show ?thesis by simp
qed



text \<open>
  C6. The source has no test of \<open>_is_cult_leader\<close> in \<open>determine_opinion\<close>, and
  \<open>step\<close> calls it on every agent. For a leader the determine phase computes a
  pending opinion by the same rule as for any other cell (the rule does not read the
  cell's own flag or opinion), stores it in \<open>_next_state\<close> and consumes at least one
  draw of \<open>random.random()\<close>. What a leader is spared is the commit: neither the
  determine phase nor \<open>assume_opinion\<close> changes its opinion or its flag.
\<close>

theorem determine_opinion_on_leader:
  assumes "i < length (agents m)" "is_cult_leader (agents m ! i)" "determine_opinion i m = Inr m'"
  shows "\<exists>v r. next_opinion m ((agents m ! i)\<lparr>is_cult_leader := False\<rparr>) = Inr (v, r) \<and>
           next_state (agents m' ! i) = v \<and> rnd m' = r \<and>
           global_pos (rnd m) < global_pos r \<and>
           is_cult_leader (agents m' ! i) \<and>
           state (agents m' ! i) = state (agents m ! i) \<and>
           state (agents (assume_opinion i m') ! i) = state (agents m ! i)"
proof -
  from determine_opinion_result [OF assms(3)] obtain v r where
    n: "next_opinion m (agents m ! i) = Inr (v, r)" and m': "m' = set_next_state i v r m"
    by blast
  have "next_opinion m ((agents m ! i)\<lparr>is_cult_leader := False\<rparr>) = next_opinion m (agents m ! i)"
    by (rule next_opinion_snapshot) simp_all
  then have 1: "next_opinion m ((agents m ! i)\<lparr>is_cult_leader := False\<rparr>) = Inr (v, r)"
    using n by simp
  have 2: "next_state (agents m' ! i) = v" "rnd m' = r"
    using assms(1) by (simp_all add: m' next_state_set_next_state set_next_state_agents)
  have 3: "global_pos (rnd m) < global_pos r" using n by (rule next_opinion_draws)
  have 4: "is_cult_leader (agents m' ! i)" "state (agents m' ! i) = state (agents m ! i)"
    using assms(1,2) by (simp_all add: m' set_next_state_agents)
  have 5: "state (agents (assume_opinion i m') ! i) = state (agents m ! i)"
    using 4 by (simp add: assume_opinion_cells(5))
  from 1 2 3 4 5 show ?thesis by blast
qed

theorem determine_opinion_on_leader_witness:
  "\<exists>r. next_opinion (grid_1x2 (Some 16) (Some 0) True (Some 16) (Some 16) 101)
          ((agents (grid_1x2 (Some 16) (Some 0) True (Some 16) (Some 16) 101) ! 0)\<lparr>is_cult_leader := False\<rparr>) =
        Inr (Some 16, r) \<and> global_pos rng0 < global_pos r"
proof -
  let ?m = "grid_1x2 (Some 16) (Some 0) True (Some 16) (Some 16) 101"
  let ?r = "rng0\<lparr>global_pos := Suc (global_pos rng0), model_pos := Suc (model_pos rng0)\<rparr>"
  have d: "determine_opinion 0 ?m = Inr (grid_1x2 (Some 16) (Some 16) True (Some 16) (Some 16) 101\<lparr>rnd := ?r\<rparr>)"
    by (rule determine_opinion_1x2_first)
  have i: "0 < length (agents ?m)" and l: "is_cult_leader (agents ?m ! 0)"
    and r: "rnd ?m = rng0"
    by (simp_all add: grid_1x2_def)
  from determine_opinion_on_leader [OF i l d] show ?thesis
    by (simp add: grid_1x2_def)
qed

text \<open>
  The claim as written fails in a state of a run: after 101 steps of the grid of one
  column and two rows the cell at \<open>(0, 0)\<close> is a leader with the pending opinion \<open>0\<close>,
  and its turn in the determine phase sets the pending opinion to \<open>16\<close> and advances
  both generators.
\<close>

theorem determine_skips_leaders_counterexample:
  "reachable (grid_1x2 (Some 16) (Some 0) True (Some 16) (Some 16) 101) \<and>
   is_cult_leader (agents (grid_1x2 (Some 16) (Some 0) True (Some 16) (Some 16) 101) ! 0) \<and>
   next_state (agents (grid_1x2 (Some 16) (Some 0) True (Some 16) (Some 16) 101) ! 0) = Some 0 \<and>
   (\<exists>m'. determine_opinion 0 (grid_1x2 (Some 16) (Some 0) True (Some 16) (Some 16) 101) = Inr m' \<and>
         next_state (agents m' ! 0) = Some 16 \<and>
         global_pos (rnd m') = Suc (global_pos (rnd (grid_1x2 (Some 16) (Some 0) True (Some 16) (Some 16) 101))) \<and>
         model_pos (rnd m') = Suc (model_pos (rnd (grid_1x2 (Some 16) (Some 0) True (Some 16) (Some 16) 101))))"
proof -
  let ?m = "grid_1x2 (Some 16) (Some 0) True (Some 16) (Some 16) 101"
  let ?r = "rng0\<lparr>global_pos := Suc (global_pos rng0), model_pos := Suc (model_pos rng0)\<rparr>"
  have d: "determine_opinion 0 ?m = Inr (grid_1x2 (Some 16) (Some 16) True (Some 16) (Some 16) 101\<lparr>rnd := ?r\<rparr>)"
    by (rule determine_opinion_1x2_first)
  have "next_state (agents (grid_1x2 (Some 16) (Some 16) True (Some 16) (Some 16) 101\<lparr>rnd := ?r\<rparr>) ! 0) = Some 16"
    "global_pos (rnd (grid_1x2 (Some 16) (Some 16) True (Some 16) (Some 16) 101\<lparr>rnd := ?r\<rparr>)) = Suc (global_pos (rnd ?m))"
    "model_pos (rnd (grid_1x2 (Some 16) (Some 16) True (Some 16) (Some 16) 101\<lparr>rnd := ?r\<rparr>)) = Suc (model_pos (rnd ?m))"
    "is_cult_leader (agents ?m ! 0)" "next_state (agents ?m ! 0) = Some 0"
    by (simp_all add: grid_1x2_def)
  with d reachable_1x2_101 show ?thesis by simp
qed



text \<open>
  C8. The opinion that the constructor gives a new cell is
  \<open>OPINIONS[self.random.randrange(0, 16)]\<close> (line 109): \<open>populate\<close> is the model after
  the loop and before the constructor's step, and cell \<open>i\<close> gets the result \<open>k\<close> of the
  \<open>i\<close>-th call of \<open>randrange(0, 16)\<close>, mapped to \<open>OPINIONS[k] = k\<close>. The stop of
  \<open>randrange\<close> is exclusive: the initial opinion is drawn from \<open>0..15\<close>, and \<open>16\<close> is
  never an initial opinion. The map from the draw to the opinion is one-to-one, so the
  opinion is as uniform over \<open>0..15\<close> as \<open>randrange\<close> is; each of the sixteen values
  occurs for every cell of every grid that the constructor can build (two cells or
  more). Every cell starts with the leader flag false, and the flag is still
  false when the constructor returns.
\<close>

theorem initial_opinions:
  assumes "populate w h r = Inr m0" "i < length (agents m0)"
  shows "init w h r = step m0 \<and>
         (\<exists>k r'. randrange 0 16 (r\<lparr>model_pos := model_pos r + i\<rparr>) = Inr (k, r') \<and>
                 k < 16 \<and> OPINIONS ! k = int k \<and> state (agents m0 ! i) = Some (OPINIONS ! k)) \<and>
         state (agents m0 ! i) \<noteq> Some 16 \<and>
         inj_on (\<lambda>k. OPINIONS ! k) {..<16} \<and>
         (2 \<le> w * h \<longrightarrow>
            (\<forall>v<16. \<exists>r2 m2 m3. populate w h r2 = Inr m2 \<and> init w h r2 = Inr m3 \<and>
                       state (agents m2 ! i) = Some (int v))) \<and>
         \<not> is_cult_leader (agents m0 ! i) \<and>
         (\<forall>m. init w h r = Inr m \<longrightarrow> \<not> is_cult_leader (agents m ! i))"
proof -
  let ?k = "model_draws r (model_pos r + i) mod 16"
  note c = populate_cells [OF assms(1)]
  have i: "i < w * h" using assms(2) c(4) by simp
  have 1: "init w h r = step m0" by (simp add: init_def assms(1))
  have k: "?k < 16" by simp
  then have o: "OPINIONS ! ?k = int ?k" by (intro OPINIONS_nth) simp
  have st: "state (agents m0 ! i) = Some (int ?k)" using c(6) [OF i] by (simp add: ColorCell_def)
  have 2: "\<exists>k r'. randrange 0 16 (r\<lparr>model_pos := model_pos r + i\<rparr>) = Inr (k, r') \<and>
                 k < 16 \<and> OPINIONS ! k = int k \<and> state (agents m0 ! i) = Some (OPINIONS ! k)"
    using k o st by (simp add: randrange_16)
  have 3: "state (agents m0 ! i) \<noteq> Some 16" using st k by simp
  have 4: "inj_on (\<lambda>k. OPINIONS ! k) {..<16}"
    by (rule inj_onI) (simp add: OPINIONS_nth)
  have 5: "\<exists>r2 m2 m3. populate w h r2 = Inr m2 \<and> init w h r2 = Inr m3 \<and>
                       state (agents m2 ! i) = Some (int v)"
    if wh: "2 \<le> w * h" and v: "v < 16" for v
  proof -
    let ?r = "r\<lparr>model_draws := (\<lambda>_. v)\<rparr>"
    from init_total [OF wh, of ?r] obtain m2 m3 where
      p: "populate w h ?r = Inr m2" and n: "init w h ?r = Inr m3"
      by blast
    have "state (agents m2 ! i) = Some (int v)"
      using populate_cells(6) [OF p i] v by (simp add: ColorCell_def)
    with p n show ?thesis by blast
  qed
  have 6: "\<not> is_cult_leader (agents m0 ! i)" using c(6) [OF i] by (simp add: ColorCell_def)
  have 7: "\<not> is_cult_leader (agents m ! i)" if "init w h r = Inr m" for m
  proof -
    from that have "step m0 = Inr m" using 1 by simp
    from first_step_no_leader [OF this c(3) assms(2)] 6 show ?thesis by simp
  qed
  from 1 2 3 4 5 6 7 show ?thesis by blast
qed

theorem initial_opinions_witness:
  "state (agents (grid_1x2 (Some 0) None False (Some 0) None 0\<lparr>rnd := rng0\<lparr>model_pos := 2\<rparr>\<rparr>) ! 1) \<noteq> Some 16 \<and>
   \<not> is_cult_leader (agents (grid_1x2 (Some 0) None False (Some 0) None 0\<lparr>rnd := rng0\<lparr>model_pos := 2\<rparr>\<rparr>) ! 1) \<and>
   (\<exists>r2 m2 m3. populate 1 2 r2 = Inr m2 \<and> init 1 2 r2 = Inr m3 \<and>
              state (agents m2 ! 1) = Some 7)"
proof -
  let ?g = "grid_1x2 (Some 0) None False (Some 0) None 0\<lparr>rnd := rng0\<lparr>model_pos := 2\<rparr>\<rparr>"
  have l: "1 < length (agents ?g)" by (simp add: grid_1x2_def)
  note t = initial_opinions [OF populate_1x2 l]
  have a: "state (agents ?g ! 1) \<noteq> Some 16" "\<not> is_cult_leader (agents ?g ! 1)"
    using t by simp_all
  have "\<forall>v<16. \<exists>r2 m2 m3. populate 1 2 r2 = Inr m2 \<and> init 1 2 r2 = Inr m3 \<and>
              state (agents m2 ! 1) = Some (int v)"
    using t by simp
  then have "(7::nat) < 16 \<longrightarrow> (\<exists>r2 m2 m3. populate 1 2 r2 = Inr m2 \<and> init 1 2 r2 = Inr m3 \<and>
              state (agents m2 ! 1) = Some (int 7))"
    by (rule spec)
  then have "\<exists>r2 m2 m3. populate 1 2 r2 = Inr m2 \<and> init 1 2 r2 = Inr m3 \<and>
              state (agents m2 ! 1) = Some 7"
    by simp
  with a show ?thesis by simp
qed

text \<open>
  The claim as written fails: the constructor builds the grid of one column and two
  rows, and under no generator is \<open>16\<close> the initial opinion of one of its cells.
\<close>

theorem initial_opinion_16_counterexample:
  "(\<exists>m. init 1 2 rng0 = Inr m) \<and>
   \<not> (\<exists>r m0 i. populate 1 2 r = Inr m0 \<and> i < length (agents m0) \<and>
                state (agents m0 ! i) = Some 16)"
proof
  show "\<exists>m. init 1 2 rng0 = Inr m" using init_total [of 1 2 rng0] by auto
  show "\<not> (\<exists>r m0 i. populate 1 2 r = Inr m0 \<and> i < length (agents m0) \<and>
                state (agents m0 ! i) = Some 16)"
  proof
    assume "\<exists>r m0 i. populate 1 2 r = Inr m0 \<and> i < length (agents m0) \<and>
                state (agents m0 ! i) = Some 16"
    then obtain r m0 i where p: "populate 1 2 r = Inr m0" and i: "i < length (agents m0)"
      and s: "state (agents m0 ! i) = Some 16"
      by blast
    from i have "i < 1 * 2" using populate_cells(4) [OF p] by simp
    from populate_cells(6) [OF p this] s
    have "int (model_draws r (model_pos r + i) mod 16) = 16" by (simp add: ColorCell_def)
    moreover have "model_draws r (model_pos r + i) mod 16 < 16" by simp
    ultimately show False by linarith
  qed
qed

text \<open>
  C9. On a grid of two cells or more every cell has a Moore neighbour, so the tally,
  \<open>tied_opinions\<close> and \<open>low_tied_opinions\<close> are not empty, \<open>choice\<close> is never called on
  an empty list, and neither \<open>determine_opinion\<close> nor \<open>step\<close> raises. On the grid of
  one cell the cell has no neighbour, both lists are empty, and there is no fallback:
  \<open>determine_opinion\<close> raises \<open>IndexError\<close>, and so does \<open>step\<close>. The hypothesis
  \<open>grid_ok\<close> holds of the model that \<open>populate\<close> builds and of every reachable state.
\<close>

theorem determine_opinion_raises_only_on_single_cell:
  assumes "grid_ok m" "i < length (agents m)"
  shows "(2 \<le> length (agents m) \<longrightarrow>
            neighbor_iter m (agents m ! i) \<noteq> [] \<and>
            tied_opinions m (agents m ! i) \<noteq> [] \<and> low_tied_opinions m (agents m ! i) \<noteq> [] \<and>
            (\<exists>m'. determine_opinion i m = Inr m') \<and> (\<exists>m'. step m = Inr m')) \<and>
         (length (agents m) = 1 \<longrightarrow>
            neighbor_iter m (agents m ! i) = [] \<and>
            determine_opinion i m = Inl IndexError \<and> step m = Inl IndexError)"
proof (intro conjI impI)
  assume l: "2 \<le> length (agents m)"
  show n: "neighbor_iter m (agents m ! i) \<noteq> []"
    by (rule neighbor_iter_nonempty [OF assms l])
  show "tied_opinions m (agents m ! i) \<noteq> []" "low_tied_opinions m (agents m ! i) \<noteq> []"
    by (rule tied_nonempty [OF n])+
  show "\<exists>m'. determine_opinion i m = Inr m'"
    using determine_opinion_total [OF assms(1) l assms(2)] by blast
  show "\<exists>m'. step m = Inr m'" by (rule step_total [OF assms(1) l])
next
  assume l: "length (agents m) = 1"
  then have i: "i = 0" using assms(2) by simp
  show "neighbor_iter m (agents m ! i) = []" "determine_opinion i m = Inl IndexError"
    "step m = Inl IndexError"
    unfolding i by (rule single_cell_raises [OF assms(1) l])+
qed

theorem determine_opinion_raises_only_on_single_cell_witness:
  "tied_opinions (grid_1x2 (Some 0) None False (Some 0) None 0\<lparr>rnd := rng0\<lparr>model_pos := 2\<rparr>\<rparr>)
     (agents (grid_1x2 (Some 0) None False (Some 0) None 0\<lparr>rnd := rng0\<lparr>model_pos := 2\<rparr>\<rparr>) ! 0) \<noteq> [] \<and>
   (\<exists>m'. determine_opinion 0 (grid_1x2 (Some 0) None False (Some 0) None 0\<lparr>rnd := rng0\<lparr>model_pos := 2\<rparr>\<rparr>) = Inr m') \<and>
   (\<exists>m'. step (grid_1x2 (Some 0) None False (Some 0) None 0\<lparr>rnd := rng0\<lparr>model_pos := 2\<rparr>\<rparr>) = Inr m')"
proof -
  let ?g = "grid_1x2 (Some 0) None False (Some 0) None 0\<lparr>rnd := rng0\<lparr>model_pos := 2\<rparr>\<rparr>"
  have g: "grid_ok ?g" using populate_1x2 by (rule grid_ok_populate)
  have l: "0 < length (agents ?g)" "2 \<le> length (agents ?g)" by (simp_all add: grid_1x2_def)
  from determine_opinion_raises_only_on_single_cell [OF g l(1)] l(2) show ?thesis by simp
qed

text \<open>
  The claim as written fails on the grid of one cell: whatever the generators yield,
  the constructor raises \<open>IndexError\<close> in the step of line 113, out of the
  \<open>choice\<close> of line 79 on the empty \<open>tied_opinions\<close>; no opinion is retained.
\<close>

theorem single_cell_counterexample:
  "(\<forall>r. init 1 1 r = Inl IndexError) \<and>
   (\<exists>m0. populate 1 1 rng0 = Inr m0 \<and> length (agents m0) = 1 \<and>
          tied_opinions m0 (agents m0 ! 0) = [] \<and> determine_opinion 0 m0 = Inl IndexError)"
proof
  show "\<forall>r. init 1 1 r = Inl IndexError" by (intro allI) (rule init_1x1)
  from populate_total obtain m0 where p: "populate 1 1 rng0 = Inr m0" by blast
  have g: "grid_ok m0" and l: "length (agents m0) = 1"
    using grid_ok_populate [OF p] populate_cells(4) [OF p] by simp_all
  have "tied_opinions m0 (agents m0 ! 0) = []"
    using single_cell_raises(1) [OF g l]
    by (simp add: tied_opinions_def polled_opinions_def neighbors_opinion_def Counter_def
        most_common_def)
  with p l single_cell_raises(2) [OF g l]
  show "\<exists>m0. populate 1 1 rng0 = Inr m0 \<and> length (agents m0) = 1 \<and>
          tied_opinions m0 (agents m0 ! 0) = [] \<and> determine_opinion 0 m0 = Inl IndexError"
    by blast
qed

text \<open>
  C10. In every state of a run every leader holds \<open>16\<close>, the last of the \<open>OPINIONS\<close>;
  this also holds after any part of the determine phase, after any part of the
  commit phase that follows it, and after the step. So the test
  \<open>cult_leader_opinion and ...\<close> of line 74 is true exactly when the scan of lines 66
  to 72 has met a leader: a leader's opinion is never \<open>0\<close> or \<open>None\<close>.
\<close>

theorem leaders_hold_max_opinion:
  assumes "reachable m"
  shows "(\<forall>c\<in>set (agents m). is_cult_leader c \<longrightarrow> state c = Some (last OPINIONS) \<and> state c = Some 16) \<and>
         (\<forall>is m1. do_determine_opinion is m = Inr m1 \<longrightarrow>
            leaders_max m1 \<and> (\<forall>js. leaders_max (do_assume_opinion js m1))) \<and>
         (\<forall>m'. step m = Inr m' \<longrightarrow> leaders_max m') \<and>
         (\<forall>self. truthy (fst (cultist_scan m self)) =
                   (\<exists>c\<in>set (check_cultist_iter m self). is_cult_leader c))"
proof -
  have l: "leaders_max m" using assms by (rule reachable_leaders_max)
  have a: "\<forall>c\<in>set (agents m). is_cult_leader c \<longrightarrow> state c = Some (last OPINIONS) \<and> state c = Some 16"
    using l by (simp add: leaders_max_def last_OPINIONS)
  have b: "leaders_max m1 \<and> (\<forall>js. leaders_max (do_assume_opinion js m1))"
    if "do_determine_opinion is m = Inr m1" for "is" m1
  proof -
    have "leaders_max m1"
      using l leaders_max_snapshot [OF do_determine_opinion_snapshot [OF that]] by simp
    then show ?thesis by (simp add: leaders_max_do_assume_opinion)
  qed
  have c: "leaders_max m'" if "step m = Inr m'" for m'
    using l that by (rule leaders_max_step)
  have d: "truthy (fst (cultist_scan m self)) =
             (\<exists>c\<in>set (check_cultist_iter m self). is_cult_leader c)" for self
    by (simp add: truthy_cultist_scan [OF l] truthy_def)
  from a b c d show ?thesis by blast
qed

theorem leaders_hold_max_opinion_witness:
  "is_cult_leader (agents (grid_1x2 (Some 16) (Some 0) True (Some 0) (Some 0) 100) ! 0) \<and>
   state (agents (grid_1x2 (Some 16) (Some 0) True (Some 0) (Some 0) 100) ! 0) = Some 16 \<and>
   truthy (fst (cultist_scan (grid_1x2 (Some 16) (Some 0) True (Some 0) (Some 0) 100)
                  (agents (grid_1x2 (Some 16) (Some 0) True (Some 0) (Some 0) 100) ! 1)))"
proof -
  let ?m = "grid_1x2 (Some 16) (Some 0) True (Some 0) (Some 0) 100"
  let ?c = "\<lparr>row = 0, col = 0, state = Some 16, next_state = Some 0, is_cult_leader = True\<rparr>"
  have in_agents: "?c \<in> set (agents ?m)" by (simp add: grid_1x2_def)
  have "check_cultist_iter ?m (agents ?m ! 1) = [?c]"
    using iter_1x2(4) [where r = rng0 and ?s0.0 = "Some 16" and ?n0.0 = "Some 0" and ?l0.0 = True
        and ?s1.0 = "Some 0" and ?n1.0 = "Some 0" and k = 100]
    by (simp add: check_cultist_iter_def cultist_influence_def grid_1x2_rnd agents_1x2_plain)
  then have seen: "\<exists>c\<in>set (check_cultist_iter ?m (agents ?m ! 1)). is_cult_leader c" by simp
  have first: "agents ?m ! 0 = ?c" by (simp add: grid_1x2_def)
  from leaders_hold_max_opinion [OF reachable_1x2_100] in_agents seen first
  show ?thesis by auto
qed

end
